theory Spec2Isabelle
  imports Main "HOL-Library.Word"
begin

section \<open>Go strings\<close>

text \<open>
  A Go \<open>string\<close> is a sequence of bytes, and \<open>len\<close> counts bytes: it is modelled as
  \<^typ>\<open>string\<close>, a list of 8-bit characters. The functions of package \<open>strings\<close> that
  the crawler calls are written out here, following their documented behaviour.
\<close>

definition HasPrefix :: "string \<Rightarrow> string \<Rightarrow> bool" where
  "HasPrefix s p = (take (length p) s = p)"

definition HasSuffix :: "string \<Rightarrow> string \<Rightarrow> bool" where
  "HasSuffix s p = (length p \<le> length s \<and> drop (length s - length p) s = p)"

text \<open>\<open>strings.Index(s, sep)\<close>: the index of the first occurrence of \<open>sep\<close> in \<open>s\<close>, or \<open>-1\<close>.\<close>

fun indexFrom :: "nat \<Rightarrow> string \<Rightarrow> string \<Rightarrow> int" where
  "indexFrom i [] sep = (if sep = [] then int i else - 1)"
| "indexFrom i (c # s) sep =
     (if HasPrefix (c # s) sep then int i else indexFrom (i + 1) s sep)"

definition Index :: "string \<Rightarrow> string \<Rightarrow> int" where
  "Index s sep = indexFrom 0 s sep"

text \<open>
  \<open>strings.Split(s, sep)\<close>: the substrings between the occurrences of \<open>sep\<close>, found from
  the left and not overlapping; a string without \<open>sep\<close> gives the one-element list
  \<open>[s]\<close>. The crawler passes the literals \<open>],\<close> and \<open>","\<close> only; for an empty separator
  Go splits after each UTF-8 sequence, written here for single-byte characters.
\<close>

function Split :: "string \<Rightarrow> string \<Rightarrow> string list" where
  "Split s sep =
     (if sep = [] then map (\<lambda>c. [c]) s
      else if Index s sep < 0 then [s]
      else take (nat (Index s sep)) s # Split (drop (nat (Index s sep) + length sep) s) sep)"
  by pat_completeness auto
termination
proof (relation "measure (\<lambda>(s, sep). length s)")
  show "wf (measure (\<lambda>(s, sep). length s))" by simp
next
  fix s sep :: string
  assume "sep \<noteq> []" and "\<not> Index s sep < 0"
  then have "s \<noteq> []" by (cases s) (auto simp: Index_def)
  with \<open>sep \<noteq> []\<close>
  show "((drop (nat (Index s sep) + length sep) s, sep), (s, sep)) \<in> measure (\<lambda>(s, sep). length s)"
    by (cases sep) auto
qed

declare Split.simps [simp del]

text \<open>
  \<open>strings.Trim(s, cutset)\<close> for a cutset of ASCII characters (the crawler's is
  \<open>"[]\<close>): Go then trims byte by byte at both ends.
\<close>

definition Trim :: "string \<Rightarrow> string \<Rightarrow> string" where
  "Trim s cutset =
     rev (dropWhile (\<lambda>c. c \<in> set cutset) (rev (dropWhile (\<lambda>c. c \<in> set cutset) s)))"

text \<open>
  \<open>strings.TrimSpace\<close> removes the leading and the trailing white space as Unicode
  defines it (\<open>unicode.IsSpace\<close>): the six ASCII characters, and the code points
  U+0085, U+00A0, U+1680, U+2000 to U+200A, U+2028, U+2029, U+202F, U+205F and U+3000,
  which a Go string holds in UTF-8.
\<close>

definition asciiSpace :: "char \<Rightarrow> bool" where
  "asciiSpace c = (c \<in> {CHR 0x09, CHR 0x0A, CHR 0x0B, CHR 0x0C, CHR 0x0D, CHR 0x20})"

definition unicodeSpaces :: "string list" where
  "unicodeSpaces =
     [[CHR 0xC2, CHR 0x85], [CHR 0xC2, CHR 0xA0], [CHR 0xE1, CHR 0x9A, CHR 0x80],
      [CHR 0xE2, CHR 0x80, CHR 0x80], [CHR 0xE2, CHR 0x80, CHR 0x81],
      [CHR 0xE2, CHR 0x80, CHR 0x82], [CHR 0xE2, CHR 0x80, CHR 0x83],
      [CHR 0xE2, CHR 0x80, CHR 0x84], [CHR 0xE2, CHR 0x80, CHR 0x85],
      [CHR 0xE2, CHR 0x80, CHR 0x86], [CHR 0xE2, CHR 0x80, CHR 0x87],
      [CHR 0xE2, CHR 0x80, CHR 0x88], [CHR 0xE2, CHR 0x80, CHR 0x89],
      [CHR 0xE2, CHR 0x80, CHR 0x8A], [CHR 0xE2, CHR 0x80, CHR 0xA8],
      [CHR 0xE2, CHR 0x80, CHR 0xA9], [CHR 0xE2, CHR 0x80, CHR 0xAF],
      [CHR 0xE2, CHR 0x81, CHR 0x9F], [CHR 0xE3, CHR 0x80, CHR 0x80]]"

text \<open>The number of bytes of the white-space character \<open>s\<close> starts with (ends with); 0 if none.\<close>

definition leadingSpace :: "string \<Rightarrow> nat" where
  "leadingSpace s =
     (case s of [] \<Rightarrow> 0
      | c # _ \<Rightarrow> if asciiSpace c then 1
          else (case find (HasPrefix s) unicodeSpaces of None \<Rightarrow> 0 | Some e \<Rightarrow> length e))"

definition trailingSpace :: "string \<Rightarrow> nat" where
  "trailingSpace s =
     (case rev s of [] \<Rightarrow> 0
      | c # _ \<Rightarrow> if asciiSpace c then 1
          else (case find (HasSuffix s) unicodeSpaces of None \<Rightarrow> 0 | Some e \<Rightarrow> length e))"

function TrimLeftSpace :: "string \<Rightarrow> string" where
  "TrimLeftSpace s =
     (if leadingSpace s = 0 then s else TrimLeftSpace (drop (leadingSpace s) s))"
  by pat_completeness auto
termination
proof (relation "measure length")
  show "wf (measure length)" by simp
next
  fix s :: string
  assume "leadingSpace s \<noteq> 0"
  then have "s \<noteq> []" by (auto simp: leadingSpace_def)
  with \<open>leadingSpace s \<noteq> 0\<close>
  show "(drop (leadingSpace s) s, s) \<in> measure length" by simp
qed

function TrimRightSpace :: "string \<Rightarrow> string" where
  "TrimRightSpace s =
     (if trailingSpace s = 0 then s
      else TrimRightSpace (take (length s - trailingSpace s) s))"
  by pat_completeness auto
termination
proof (relation "measure length")
  show "wf (measure length)" by simp
next
  fix s :: string
  assume "trailingSpace s \<noteq> 0"
  then have "s \<noteq> []" by (auto simp: trailingSpace_def)
  with \<open>trailingSpace s \<noteq> 0\<close>
  show "(take (length s - trailingSpace s) s, s) \<in> measure length" by simp
qed

declare TrimLeftSpace.simps [simp del] TrimRightSpace.simps [simp del]

definition TrimSpace :: "string \<Rightarrow> string" where
  "TrimSpace s = TrimRightSpace (TrimLeftSpace s)"

text \<open>
  A slice expression \<open>s[lo:hi]\<close> panics unless \<open>0 \<le> lo \<le> hi \<le> len(s)\<close>;
  \<open>s[lo:]\<close> is \<open>s[lo:len(s)]\<close>.
\<close>

definition Slice :: "string \<Rightarrow> int \<Rightarrow> int \<Rightarrow> string option" where
  "Slice s lo hi =
     (if 0 \<le> lo \<and> lo \<le> hi \<and> hi \<le> int (length s)
      then Some (drop (nat lo) (take (nat hi) s)) else None)"

text \<open>The verb \<open>%d\<close> of \<open>fmt\<close>: an integer in decimal.\<close>

fun digits :: "nat \<Rightarrow> string" where
  "digits n =
     (if n < 10 then [''0123456789'' ! n]
      else digits (n div 10) @ [''0123456789'' ! (n mod 10)])"

declare digits.simps [simp del]

definition Itoa :: "int \<Rightarrow> string" where
  "Itoa i = (if i < 0 then CHR ''-'' # digits (nat (- i)) else digits (nat i))"

section \<open>The data model\<close>

record FundNode =
  Code :: string
  Abridge :: string
  Name :: string
  Type :: string
  Pinyin :: string

record FundDetail =
  FSRQ :: string
  DWJZ :: string
  LJJZ :: string
  SDATE :: string
  ACTUALSYI :: string
  NAVTYPE :: string
  JZZZL :: string
  SGZT :: string
  SHZT :: string
  FHFCZ :: string
  FHFCBZ :: string
  DTYPE :: string
  FHSP :: string

record FundDetails =
  LSJZList :: "FundDetail list"
  FundType :: string
  SYType :: string
  isNewType :: bool
  Feature :: string

record FundInfo =
  Data :: FundDetails
  ErrCode :: int
  ErrMsg :: string
  TotalCount :: int
  Expansion :: string
  PageSize :: int
  PageIndex :: int

text \<open>
  What the crawler sees of its libraries. A parsed URL is kept as the text that \<open>%s\<close>
  prints for it; a response is its status code and the bytes its body delivers, with the
  error that ends the reading, if any. A point of the time-series client is what can be
  read back of it: its name, the tags and the fields it keeps, and its time. A \<open>float64\<close>
  is its 64 bits; an instant is a number.
\<close>

type_synonym URL = string

record response =
  StatusCode :: int
  Body :: string
  BodyErr :: "string option"

datatype fieldValue = StringValue string | FloatValue "64 word"

text \<open>
  The field map that \<open>sink\<close> builds is kept as the list of its entries, each key once,
  since the library goes through all of them.
\<close>

type_synonym fieldMap = "(string \<times> fieldValue) list"

record point =
  ptName :: string
  ptTags :: "string \<rightharpoonup> string"
  ptFields :: "string \<rightharpoonup> fieldValue"
  ptTime :: int

record batchPoints =
  bpDatabase :: string
  bpPoints :: "point list"

text \<open>
  Errors are values. The crawler's own errors (made with \<open>fmt.Errorf\<close>) carry the values
  their message prints; an error that a library returns and the crawler passes on carries
  that library's message. \<open>PointFieldError\<close> stands for the messages of the store's
  library about a field it does not support, which name one such field: which one, when
  there are several, depends on the order in which Go goes through a map.
\<close>

datatype error =
    UrlError string
  | HttpGetError string URL
  | HttpCodeError int URL
  | ReadError string
  | InvalidResponseBody
  | JsonSyntaxError
  | JsonUnexpectedEOF
  | JsonEOF
  | UnmarshalError string
  | EmptyFundCode
  | FundInfoError int string int int
  | BatchPointsError string
  | DateError string
  | PointWithoutFields
  | PointFieldError
  | PointError string
  | WriteError string

datatype panic = SliceOutOfRange | NilDereference

datatype 'a outcome = Return 'a | Panic panic

text \<open>
  The effects of a run, in the order they happen: the requests sent, the batches handed
  to the store, the lines logged (\<open>log.Printf\<close> of an invalid tuple; the logger's two
  debug lines and its error line, with their fields) and the pauses.
\<close>

datatype event =
    Request URL
  | Write batchPoints
  | LogInvalidNode string
  | LogGetSuccess string string
  | LogSinkSuccess string string nat
  | LogGetFundError string string error
  | Sleep

text \<open>
  The world outside the program: the libraries whose code is not the crawler's, and the
  network, the store, the clock and the random source, whose answers may depend on
  everything that happened before. Of the checks that the store's library makes of a
  point, two are left to the world: whether its time is one the store can hold
  (\<open>checkTime\<close>), and whether its series key, made of the name, the tags and a field name
  of the given length, is short enough (\<open>checkKey\<close>).
\<close>

record env =
  urlParse :: "string \<Rightarrow> string + URL"
  httpDo :: "event list \<Rightarrow> URL \<Rightarrow> string + response"
  unmarshal :: "string \<Rightarrow> string + FundInfo"
  parseLocal :: "string \<Rightarrow> string + int"
  parseFloat :: "string \<Rightarrow> string + 64 word"
  newBatchPoints :: "string \<Rightarrow> string option"
  checkTime :: "int \<Rightarrow> string option"
  checkKey :: "string \<Rightarrow> (string \<rightharpoonup> string) \<Rightarrow> nat \<Rightarrow> string option"
  influxWrite :: "event list \<Rightarrow> batchPoints \<Rightarrow> string option"
  nowUnix :: "event list \<Rightarrow> 64 word"
  randInt63n :: "event list \<Rightarrow> 64 word \<Rightarrow> 64 word"

section \<open>The HTTP fetcher\<close>

text \<open>
  \<open>getHttpResponse\<close>: the loop \<open>for cnt > 0\<close> with \<open>cnt := 3\<close>. Every request carries the
  same two headers. The function returns the pair \<open>(resp, err)\<close> of the source.
\<close>

fun attempts ::
  "env \<Rightarrow> URL \<Rightarrow> nat \<Rightarrow> error option \<Rightarrow> event list
     \<Rightarrow> (response option \<times> error option) \<times> event list" where
  "attempts env fundUrl 0 err tr = ((None, err), tr)"
| "attempts env fundUrl (Suc cnt) err tr =
     (case httpDo env tr fundUrl of
        Inl e \<Rightarrow>
          attempts env fundUrl cnt (Some (HttpGetError e fundUrl)) (tr @ [Request fundUrl])
      | Inr resp \<Rightarrow>
          if StatusCode resp \<noteq> 200
          then attempts env fundUrl cnt (Some (HttpCodeError (StatusCode resp) fundUrl))
                 (tr @ [Request fundUrl])
          else ((Some resp, None), tr @ [Request fundUrl]))"

text \<open>
  \<open>getHttpResponse\<close> (lines 118 to 147): an URL that does not parse is an error at once;
  otherwise the loop starts with three attempts left and no error.
\<close>

definition getHttpResponse ::
  "env \<Rightarrow> string \<Rightarrow> event list \<Rightarrow> (response option \<times> error option) \<times> event list" where
  "getHttpResponse env u tr =
     (case urlParse env u of
        Inl e \<Rightarrow> ((None, Some (UrlError e)), tr)
      | Inr fundUrl \<Rightarrow> attempts env fundUrl 3 None tr)"

section \<open>The catalog parser\<close>

definition zeroNode :: FundNode where
  "zeroNode = \<lparr>Code = [], Abridge = [], Name = [], Type = [], Pinyin = []\<rparr>"

definition cutset :: string where
  "cutset = [CHR 0x22, CHR ''['', CHR '']'']"

definition fieldSep :: string where
  "fieldSep = [CHR 0x22, CHR '','', CHR 0x22]"

text \<open>
  The loop of \<open>getNodeList\<close> over the raw tuples: \<open>nodeList\<close> was made with one
  zero-valued record per tuple, and the loop assigns \<open>nodeList[i]\<close> for the tuples of
  five fields and logs the others.
\<close>

fun nodeLoop ::
  "nat \<Rightarrow> string list \<Rightarrow> FundNode list \<Rightarrow> event list \<Rightarrow> FundNode list \<times> event list" where
  "nodeLoop i [] nodeList tr = (nodeList, tr)"
| "nodeLoop i (list # rest) nodeList tr =
     (let segs = Split list fieldSep in
      if length segs \<noteq> 5 then nodeLoop (i + 1) rest nodeList (tr @ [LogInvalidNode list])
      else nodeLoop (i + 1) rest
             (nodeList[i := \<lparr>Code = Trim (segs ! 0) cutset,
                             Abridge = Trim (segs ! 1) cutset,
                             Name = Trim (segs ! 2) cutset,
                             Type = Trim (segs ! 3) cutset,
                             Pinyin = Trim (segs ! 4) cutset\<rparr>]) tr)"

definition catalogUrl :: string where
  "catalogUrl = ''http://fund.eastmoney.com/js/fundcode_search.js''"

text \<open>
  \<open>getNodeList\<close> (lines 86 to 116). The error of reading the body is ignored by the
  source, which goes on with the bytes read. Each of the two slice expressions can panic.
\<close>

definition getNodeList ::
  "env \<Rightarrow> event list \<Rightarrow> (error + FundNode list) outcome \<times> event list" where
  "getNodeList env tr =
     (case getHttpResponse env catalogUrl tr of
        ((_, Some err), tr1) \<Rightarrow> (Return (Inl err), tr1)
      | ((None, None), tr1) \<Rightarrow> (Panic NilDereference, tr1)
      | ((Some resp, None), tr1) \<Rightarrow>
          (let s = Body resp in
           case Slice s (Index s ''='' + 1) (int (length s)) of
             None \<Rightarrow> (Panic SliceOutOfRange, tr1)
           | Some s1 \<Rightarrow>
               (let s2 = TrimSpace s1 in
                case Slice s2 1 (int (length s2) - 3) of
                  None \<Rightarrow> (Panic SliceOutOfRange, tr1)
                | Some s3 \<Rightarrow>
                    (let tuples = Split s3 ''],'';
                         (nodeList, tr2) =
                            nodeLoop 0 tuples (replicate (length tuples) zeroNode) tr1
                     in (Return (Inr nodeList), tr2)))))"

section \<open>The JSON stream decoder\<close>

text \<open>
  \<open>parseFund\<close> decodes with \<open>json.NewDecoder(...).Decode\<close>. The decoder first reads one
  whole JSON value off the front of its input (\<open>readValue\<close>), feeding the bytes one by one
  to the scanner of \<open>encoding/json\<close>, and then unmarshals exactly those bytes. The scanner
  is the state machine below: \<open>stepFn\<close> is the state function to call on the next byte and
  \<open>parseStack\<close> the stack of open objects and arrays, innermost first.
\<close>

datatype stepState =
    StBeginValue | StBeginValueOrEmpty | StBeginStringOrEmpty | StBeginString
  | StEndValue | StEndTop
  | StInString | StInStringEsc | StInStringEscU | StInStringEscU1 | StInStringEscU12
  | StInStringEscU123
  | StNeg | St1 | St0 | StDot | StDot0 | StE | StESign | StE0
  | StT | StTr | StTru | StF | StFa | StFal | StFals | StN | StNu | StNul
  | StError

datatype parseState = parseObjectKey | parseObjectValue | parseArrayValue

datatype scanCode =
    scanContinue | scanBeginLiteral | scanBeginObject | scanObjectKey | scanObjectValue
  | scanEndObject | scanBeginArray | scanArrayValue | scanEndArray | scanSkipSpace
  | scanEnd | scanError

record scanner =
  stepFn :: stepState
  parseStack :: "parseState list"

definition maxNestingDepth :: nat where
  "maxNestingDepth = 10000"

definition isSpace :: "char \<Rightarrow> bool" where
  "isSpace c = (c \<in> {CHR '' '', CHR 0x09, CHR 0x0D, CHR 0x0A})"

definition isDigit :: "char \<Rightarrow> bool" where
  "isDigit c = (c \<in> set ''0123456789'')"

definition isHex :: "char \<Rightarrow> bool" where
  "isHex c = (c \<in> set ''0123456789abcdefABCDEF'')"

definition scanFail :: "scanner \<Rightarrow> scanCode \<times> scanner" where
  "scanFail s = (scanError, s\<lparr>stepFn := StError\<rparr>)"

definition goto :: "scanner \<Rightarrow> stepState \<Rightarrow> scanCode \<Rightarrow> scanCode \<times> scanner" where
  "goto s st code = (code, s\<lparr>stepFn := st\<rparr>)"

definition pushParseState :: "scanner \<Rightarrow> parseState \<Rightarrow> scanCode \<Rightarrow> scanCode \<times> scanner" where
  "pushParseState s newParseState successState =
     (let s' = s\<lparr>parseStack := newParseState # parseStack s\<rparr> in
      if length (parseStack s') \<le> maxNestingDepth then (successState, s') else scanFail s')"

definition popParseState :: "scanner \<Rightarrow> scanner" where
  "popParseState s =
     (let ps = tl (parseStack s) in
      s\<lparr>parseStack := ps, stepFn := (if ps = [] then StEndTop else StEndValue)\<rparr>)"

definition stateEndTop :: "scanner \<Rightarrow> char \<Rightarrow> scanCode \<times> scanner" where
  "stateEndTop s c = (scanEnd, if \<not> isSpace c then s\<lparr>stepFn := StError\<rparr> else s)"

definition stateEndValue :: "scanner \<Rightarrow> char \<Rightarrow> scanCode \<times> scanner" where
  "stateEndValue s c =
     (case parseStack s of
        [] \<Rightarrow> stateEndTop (s\<lparr>stepFn := StEndTop\<rparr>) c
      | ps # below \<Rightarrow>
          if isSpace c then goto s StEndValue scanSkipSpace
          else (case ps of
              parseObjectKey \<Rightarrow>
                if c = CHR '':''
                then goto (s\<lparr>parseStack := parseObjectValue # below\<rparr>) StBeginValue scanObjectKey
                else scanFail s
            | parseObjectValue \<Rightarrow>
                if c = CHR '',''
                then goto (s\<lparr>parseStack := parseObjectKey # below\<rparr>) StBeginString scanObjectValue
                else if c = CHR ''}'' then (scanEndObject, popParseState s)
                else scanFail s
            | parseArrayValue \<Rightarrow>
                if c = CHR '','' then goto s StBeginValue scanArrayValue
                else if c = CHR '']'' then (scanEndArray, popParseState s)
                else scanFail s))"

definition stateBeginValue :: "scanner \<Rightarrow> char \<Rightarrow> scanCode \<times> scanner" where
  "stateBeginValue s c =
     (if isSpace c then (scanSkipSpace, s)
      else if c = CHR ''{''
        then pushParseState (s\<lparr>stepFn := StBeginStringOrEmpty\<rparr>) parseObjectKey scanBeginObject
      else if c = CHR ''[''
        then pushParseState (s\<lparr>stepFn := StBeginValueOrEmpty\<rparr>) parseArrayValue scanBeginArray
      else if c = CHR 0x22 then goto s StInString scanBeginLiteral
      else if c = CHR ''-'' then goto s StNeg scanBeginLiteral
      else if c = CHR ''0'' then goto s St0 scanBeginLiteral
      else if c = CHR ''t'' then goto s StT scanBeginLiteral
      else if c = CHR ''f'' then goto s StF scanBeginLiteral
      else if c = CHR ''n'' then goto s StN scanBeginLiteral
      else if isDigit c then goto s St1 scanBeginLiteral
      else scanFail s)"

definition stateBeginValueOrEmpty :: "scanner \<Rightarrow> char \<Rightarrow> scanCode \<times> scanner" where
  "stateBeginValueOrEmpty s c =
     (if isSpace c then (scanSkipSpace, s)
      else if c = CHR '']'' then stateEndValue s c
      else stateBeginValue s c)"

definition stateBeginString :: "scanner \<Rightarrow> char \<Rightarrow> scanCode \<times> scanner" where
  "stateBeginString s c =
     (if isSpace c then (scanSkipSpace, s)
      else if c = CHR 0x22 then goto s StInString scanBeginLiteral
      else scanFail s)"

definition stateBeginStringOrEmpty :: "scanner \<Rightarrow> char \<Rightarrow> scanCode \<times> scanner" where
  "stateBeginStringOrEmpty s c =
     (if isSpace c then (scanSkipSpace, s)
      else if c = CHR ''}''
        then stateEndValue (s\<lparr>parseStack := parseObjectValue # tl (parseStack s)\<rparr>) c
      else stateBeginString s c)"

definition stateInString :: "scanner \<Rightarrow> char \<Rightarrow> scanCode \<times> scanner" where
  "stateInString s c =
     (if c = CHR 0x22 then goto s StEndValue scanContinue
      else if c = CHR 0x5C then goto s StInStringEsc scanContinue
      else if (of_char c :: nat) < 0x20 then scanFail s
      else (scanContinue, s))"

definition stateInStringEsc :: "scanner \<Rightarrow> char \<Rightarrow> scanCode \<times> scanner" where
  "stateInStringEsc s c =
     (if c \<in> {CHR ''b'', CHR ''f'', CHR ''n'', CHR ''r'', CHR ''t'', CHR 0x5C, CHR ''/'', CHR 0x22}
      then goto s StInString scanContinue
      else if c = CHR ''u'' then goto s StInStringEscU scanContinue
      else scanFail s)"

definition state0 :: "scanner \<Rightarrow> char \<Rightarrow> scanCode \<times> scanner" where
  "state0 s c =
     (if c = CHR ''.'' then goto s StDot scanContinue
      else if c = CHR ''e'' \<or> c = CHR ''E'' then goto s StE scanContinue
      else stateEndValue s c)"

definition state1 :: "scanner \<Rightarrow> char \<Rightarrow> scanCode \<times> scanner" where
  "state1 s c = (if isDigit c then goto s St1 scanContinue else state0 s c)"

definition stateNeg :: "scanner \<Rightarrow> char \<Rightarrow> scanCode \<times> scanner" where
  "stateNeg s c =
     (if c = CHR ''0'' then goto s St0 scanContinue
      else if isDigit c then goto s St1 scanContinue
      else scanFail s)"

definition stateDot0 :: "scanner \<Rightarrow> char \<Rightarrow> scanCode \<times> scanner" where
  "stateDot0 s c =
     (if isDigit c then (scanContinue, s)
      else if c = CHR ''e'' \<or> c = CHR ''E'' then goto s StE scanContinue
      else stateEndValue s c)"

definition stateESign :: "scanner \<Rightarrow> char \<Rightarrow> scanCode \<times> scanner" where
  "stateESign s c = (if isDigit c then goto s StE0 scanContinue else scanFail s)"

definition stateE :: "scanner \<Rightarrow> char \<Rightarrow> scanCode \<times> scanner" where
  "stateE s c =
     (if c = CHR ''+'' \<or> c = CHR ''-'' then goto s StESign scanContinue else stateESign s c)"

definition stateE0 :: "scanner \<Rightarrow> char \<Rightarrow> scanCode \<times> scanner" where
  "stateE0 s c = (if isDigit c then (scanContinue, s) else stateEndValue s c)"

text \<open>A state that accepts one byte (or one class of bytes) and moves on.\<close>

definition expect :: "scanner \<Rightarrow> bool \<Rightarrow> stepState \<Rightarrow> scanCode \<times> scanner" where
  "expect s ok st = (if ok then goto s st scanContinue else scanFail s)"

definition scanStep :: "scanner \<Rightarrow> char \<Rightarrow> scanCode \<times> scanner" where
  "scanStep s c =
     (case stepFn s of
        StBeginValue \<Rightarrow> stateBeginValue s c
      | StBeginValueOrEmpty \<Rightarrow> stateBeginValueOrEmpty s c
      | StBeginStringOrEmpty \<Rightarrow> stateBeginStringOrEmpty s c
      | StBeginString \<Rightarrow> stateBeginString s c
      | StEndValue \<Rightarrow> stateEndValue s c
      | StEndTop \<Rightarrow> stateEndTop s c
      | StInString \<Rightarrow> stateInString s c
      | StInStringEsc \<Rightarrow> stateInStringEsc s c
      | StInStringEscU \<Rightarrow> expect s (isHex c) StInStringEscU1
      | StInStringEscU1 \<Rightarrow> expect s (isHex c) StInStringEscU12
      | StInStringEscU12 \<Rightarrow> expect s (isHex c) StInStringEscU123
      | StInStringEscU123 \<Rightarrow> expect s (isHex c) StInString
      | StNeg \<Rightarrow> stateNeg s c
      | St1 \<Rightarrow> state1 s c
      | St0 \<Rightarrow> state0 s c
      | StDot \<Rightarrow> expect s (isDigit c) StDot0
      | StDot0 \<Rightarrow> stateDot0 s c
      | StE \<Rightarrow> stateE s c
      | StESign \<Rightarrow> stateESign s c
      | StE0 \<Rightarrow> stateE0 s c
      | StT \<Rightarrow> expect s (c = CHR ''r'') StTr
      | StTr \<Rightarrow> expect s (c = CHR ''u'') StTru
      | StTru \<Rightarrow> expect s (c = CHR ''e'') StEndValue
      | StF \<Rightarrow> expect s (c = CHR ''a'') StFa
      | StFa \<Rightarrow> expect s (c = CHR ''l'') StFal
      | StFal \<Rightarrow> expect s (c = CHR ''s'') StFals
      | StFals \<Rightarrow> expect s (c = CHR ''e'') StEndValue
      | StN \<Rightarrow> expect s (c = CHR ''u'') StNu
      | StNu \<Rightarrow> expect s (c = CHR ''l'') StNul
      | StNul \<Rightarrow> expect s (c = CHR ''l'') StEndValue
      | StError \<Rightarrow> (scanError, s))"

definition nonSpace :: "string \<Rightarrow> bool" where
  "nonSpace b = (\<exists>c \<in> set b. \<not> isSpace c)"

text \<open>
  \<open>readValue\<close>: the number of bytes of the first JSON value of the input, or an error.
  A value that ends with \<open>}\<close> or \<open>]\<close> is complete at that byte; a literal is complete at
  the byte after it, or at the end of the input. \<open>buf\<close> is the whole input, \<open>scanp\<close> the
  number of bytes scanned.
\<close>

fun readValueLoop :: "string \<Rightarrow> scanner \<Rightarrow> string \<Rightarrow> nat \<Rightarrow> error + nat" where
  "readValueLoop buf scan [] scanp =
     (if fst (scanStep scan CHR '' '') = scanEnd then Inr scanp
      else if nonSpace buf then Inl JsonUnexpectedEOF
      else Inl JsonEOF)"
| "readValueLoop buf scan (c # rest) scanp =
     (case scanStep scan c of (code, scan') \<Rightarrow>
        if code = scanEnd then Inr scanp
        else if code = scanEndObject \<or> code = scanEndArray then
          (case stateEndValue scan' CHR '' '' of (code', scan'') \<Rightarrow>
             if code' = scanEnd then Inr (scanp + 1)
             else readValueLoop buf scan'' rest (scanp + 1))
        else if code = scanError then Inl JsonSyntaxError
        else readValueLoop buf scan' rest (scanp + 1))"

definition readValue :: "string \<Rightarrow> error + nat" where
  "readValue data = readValueLoop data \<lparr>stepFn = StBeginValue, parseStack = []\<rparr> data 0"

text \<open>
  \<open>Decode\<close>: read one value, then unmarshal exactly its bytes into a \<open>FundInfo\<close>. What the
  library makes of these bytes is a parameter of the model (\<open>unmarshal\<close> of the world).
\<close>

definition Decode :: "env \<Rightarrow> string \<Rightarrow> error + FundInfo" where
  "Decode env data =
     (case readValue data of
        Inl err \<Rightarrow> Inl err
      | Inr n \<Rightarrow>
          (case unmarshal env (take n data) of
             Inl msg \<Rightarrow> Inl (UnmarshalError msg)
           | Inr info \<Rightarrow> Inr info))"

section \<open>The history parser\<close>

text \<open>
  \<open>parseFund\<close> (lines 149 to 164): the body is read to its end, cut at its first \<open>{\<close>, and
  decoded from there.
\<close>

definition parseFund :: "env \<Rightarrow> response \<Rightarrow> (error + FundInfo) outcome" where
  "parseFund env resp =
     (case BodyErr resp of
        Some msg \<Rightarrow> Return (Inl (ReadError msg))
      | None \<Rightarrow>
          (let data = Body resp; beg = Index data ''{'' in
           if beg = - 1 then Return (Inl InvalidResponseBody)
           else (case Slice data beg (int (length data)) of
                   None \<Rightarrow> Panic SliceOutOfRange
                 | Some data' \<Rightarrow> Return (Decode env data'))))"

section \<open>The point builder and the sink\<close>

text \<open>
  \<open>sink\<close> (lines 192 to 237). The tag map is made once, of the five strings of the
  instrument's record.
\<close>

definition tagsOf :: "FundNode \<Rightarrow> (string \<rightharpoonup> string)" where
  "tagsOf node =
     [''code'' \<mapsto> Code node, ''abridge'' \<mapsto> Abridge node, ''name'' \<mapsto> Name node,
      ''type'' \<mapsto> Type node, ''pinyin'' \<mapsto> Pinyin node]"

text \<open>
  The field map of one record: the three strings, then each number whose text
  \<open>strconv.ParseFloat\<close> accepts. \<open>setEntry\<close> is the assignment \<open>fields[k] = v\<close>.
\<close>

fun setEntry :: "string \<Rightarrow> fieldValue \<Rightarrow> fieldMap \<Rightarrow> fieldMap" where
  "setEntry k v [] = [(k, v)]"
| "setEntry k v (kv # rest) = (if fst kv = k then (k, v) # rest else kv # setEntry k v rest)"

definition addFloat :: "env \<Rightarrow> string \<Rightarrow> string \<Rightarrow> fieldMap \<Rightarrow> fieldMap" where
  "addFloat env key src flds =
     (case parseFloat env src of
        Inr v \<Rightarrow> setEntry key (FloatValue v) flds
      | Inl _ \<Rightarrow> flds)"

definition fieldsOf :: "env \<Rightarrow> FundDetail \<Rightarrow> fieldMap" where
  "fieldsOf env fund =
     (let flds = [(''NAVTYPE'', StringValue (NAVTYPE fund)),
                  (''SGZT'', StringValue (SGZT fund)),
                  (''SHZT'', StringValue (SHZT fund))];
          flds = addFloat env ''DWJZ'' (DWJZ fund) flds;
          flds = addFloat env ''LJJZ'' (LJJZ fund) flds;
          flds = addFloat env ''JZZZL'' (JZZZL fund) flds
      in flds)"

text \<open>\<open>math.IsNaN\<close> or \<open>math.IsInf\<close>: the eleven bits of the exponent are all set.\<close>

definition nonFinite :: "64 word \<Rightarrow> bool" where
  "nonFinite v = (take_bit 11 (drop_bit 52 v) = (2047 :: 64 word))"

fun badField :: "string \<times> fieldValue \<Rightarrow> bool" where
  "badField (k, FloatValue v) = (nonFinite v \<or> k = [])"
| "badField (k, StringValue x) = (k = [])"

definition longestName :: "fieldMap \<Rightarrow> nat" where
  "longestName flds = foldr (\<lambda>kv n. max (length (fst kv)) n) flds 0"

definition keptTags :: "(string \<rightharpoonup> string) \<Rightarrow> (string \<rightharpoonup> string)" where
  "keptTags tags =
     (\<lambda>k. case tags k of None \<Rightarrow> None | Some v \<Rightarrow> if v = [] then None else Some v)"

text \<open>
  \<open>client.NewPoint\<close>, which is \<open>models.NewPoint\<close> of the store's library. It refuses a point
  without fields, then a time the store cannot hold, then a field whose value is a NaN
  or an infinity or whose name is empty, then a series key that is too long with one of
  the field names, that is with the longest. The point it makes keeps the tags whose
  value is not empty: a tag with an empty value is dropped.
\<close>

definition NewPoint ::
  "env \<Rightarrow> string \<Rightarrow> (string \<rightharpoonup> string) \<Rightarrow> fieldMap \<Rightarrow> int \<Rightarrow> error + point" where
  "NewPoint env name tags flds t =
     (if flds = [] then Inl PointWithoutFields
      else
        (case checkTime env t of
           Some msg \<Rightarrow> Inl (PointError msg)
         | None \<Rightarrow>
             if list_ex badField flds then Inl PointFieldError
             else
               (case checkKey env name tags (longestName flds) of
                  Some msg \<Rightarrow> Inl (PointError msg)
                | None \<Rightarrow>
                    Inr \<lparr>ptName = name, ptTags = keptTags tags, ptFields = map_of flds,
                         ptTime = t\<rparr>)))"

text \<open>The loop of \<open>sink\<close> over \<open>info.Data.LSJZList\<close>; \<open>bp\<close> holds the points added so far.\<close>

fun sinkLoop ::
  "env \<Rightarrow> (string \<rightharpoonup> string) \<Rightarrow> FundDetail list \<Rightarrow> point list \<Rightarrow> error + point list" where
  "sinkLoop env tags [] bp = Inr bp"
| "sinkLoop env tags (fund # rest) bp =
     (case parseLocal env (FSRQ fund) of
        Inl msg \<Rightarrow> Inl (DateError msg)
      | Inr ptime \<Rightarrow>
          (case NewPoint env ''fund'' tags (fieldsOf env fund) ptime of
             Inl err \<Rightarrow> Inl err
           | Inr pt \<Rightarrow> sinkLoop env tags rest (bp @ [pt])))"

text \<open>
  \<open>sink\<close> itself: make the batch, run the loop, and hand the batch to the store with one
  call of \<open>influxClient.Write\<close>, which is an event whether or not the store accepts it.
\<close>

definition sink :: "env \<Rightarrow> FundNode \<Rightarrow> FundInfo \<Rightarrow> event list \<Rightarrow> error option \<times> event list" where
  "sink env node info tr =
     (case newBatchPoints env ''fund'' of
        Some msg \<Rightarrow> (Some (BatchPointsError msg), tr)
      | None \<Rightarrow>
          (case sinkLoop env (tagsOf node) (LSJZList (Data info)) [] of
             Inl err \<Rightarrow> (Some err, tr)
           | Inr pts \<Rightarrow>
               (let bp = \<lparr>bpDatabase = ''fund'', bpPoints = pts\<rparr> in
                case influxWrite env tr bp of
                  Some msg \<Rightarrow> (Some (WriteError msg), tr @ [Write bp])
                | None \<Rightarrow>
                    (None, tr @ [Write bp,
                                 LogSinkSuccess (Code node) (Name node) (length pts)]))))"

section \<open>The pipeline driver\<close>

text \<open>
  \<open>getFund\<close> (lines 166 to 190). The page index is the constant 1; the time stamp is
  computed in 64-bit integers from the clock and the random source.
\<close>

definition historyUrl :: "string \<Rightarrow> int \<Rightarrow> int \<Rightarrow> string" where
  "historyUrl code pageIndex timestamp =
     ''http://api.fund.eastmoney.com/f10/lsjz?callback=jQuer&fundCode='' @ code
       @ ''&pageIndex='' @ Itoa pageIndex
       @ ''&pageSize=20&startDate=&endDate=&_='' @ Itoa timestamp"

definition getFund :: "env \<Rightarrow> FundNode \<Rightarrow> event list \<Rightarrow> error option outcome \<times> event list" where
  "getFund env node tr =
     (if Code node = [] then (Return (Some EmptyFundCode), tr)
      else
        (let timestamp = (nowUnix env tr - 2) * 1000 - randInt63n env tr 1000;
             pageIndex = 1;
             fundUrl = historyUrl (Code node) pageIndex (sint timestamp)
         in case getHttpResponse env fundUrl tr of
              ((_, Some err), tr1) \<Rightarrow> (Return (Some err), tr1)
            | ((None, None), tr1) \<Rightarrow> (Panic NilDereference, tr1)
            | ((Some resp, None), tr1) \<Rightarrow>
                (let tr2 = tr1 @ [LogGetSuccess (Code node) (Name node)] in
                 case parseFund env resp of
                   Panic p \<Rightarrow> (Panic p, tr2)
                 | Return (Inl err) \<Rightarrow> (Return (Some err), tr2)
                 | Return (Inr fundInfo) \<Rightarrow>
                     if ErrCode fundInfo \<noteq> 0
                     then (Return (Some (FundInfoError (ErrCode fundInfo) (ErrMsg fundInfo)
                                            (PageIndex fundInfo) (PageSize fundInfo))), tr2)
                     else (case sink env node fundInfo tr2 of
                             (Some err, tr3) \<Rightarrow> (Return (Some err), tr3)
                           | (None, tr3) \<Rightarrow> (Return None, tr3)))))"

text \<open>
  The loop of \<open>run\<close> over the instruments: an error of \<open>getFund\<close> is logged with the
  instrument's code and name, and the pause follows in either case.
\<close>

fun runLoop :: "env \<Rightarrow> FundNode list \<Rightarrow> event list \<Rightarrow> error option outcome \<times> event list" where
  "runLoop env [] tr = (Return None, tr)"
| "runLoop env (fundNode # rest) tr =
     (case getFund env fundNode tr of
        (Panic p, tr1) \<Rightarrow> (Panic p, tr1)
      | (Return (Some err), tr1) \<Rightarrow>
          runLoop env rest
            (tr1 @ [LogGetFundError (Code fundNode) (Name fundNode) err, Sleep])
      | (Return None, tr1) \<Rightarrow> runLoop env rest (tr1 @ [Sleep]))"

text \<open>
  \<open>run\<close> (lines 239 to 251). \<open>main\<close> calls \<open>run\<close> for ever and \<open>init\<close> makes the logger and the
  client of the store; neither is part of the model.
\<close>

definition run :: "env \<Rightarrow> event list \<Rightarrow> error option outcome \<times> event list" where
  "run env tr =
     (case getNodeList env tr of
        (Panic p, tr1) \<Rightarrow> (Panic p, tr1)
      | (Return (Inl err), tr1) \<Rightarrow> (Return (Some err), tr1)
      | (Return (Inr nodeList), tr1) \<Rightarrow> runLoop env nodeList tr1)"

section \<open>Notions used to state the properties\<close>

text \<open>The part of a string after the first occurrence of a character; all of it if there is none.\<close>

definition afterFirst :: "char \<Rightarrow> string \<Rightarrow> string" where
  "afterFirst c s = (if c \<in> set s then tl (dropWhile (\<lambda>x. x \<noteq> c) s) else s)"

text \<open>
  The raw tuples of a catalog body: what is left of the text after the first \<open>=\<close>, trimmed,
  without its first byte and its last three, cut at every \<open>],\<close>.
\<close>

definition catalogTuples :: "string \<Rightarrow> string list" where
  "catalogTuples body =
     (let s = TrimSpace (afterFirst CHR ''='' body)
      in Split (drop 1 (take (length s - 3) s)) ''],'')"

text \<open>The record of one raw tuple: its five trimmed fields, or the zero value.\<close>

definition nodeOf :: "string \<Rightarrow> FundNode" where
  "nodeOf tuple =
     (let segs = Split tuple fieldSep in
      if length segs \<noteq> 5 then zeroNode
      else \<lparr>Code = Trim (segs ! 0) cutset, Abridge = Trim (segs ! 1) cutset,
            Name = Trim (segs ! 2) cutset, Type = Trim (segs ! 3) cutset,
            Pinyin = Trim (segs ! 4) cutset\<rparr>)"

text \<open>
  The error that one attempt of the fetcher ends with, made after the events \<open>tr\<close>; none
  if the attempt succeeds with status 200.
\<close>

definition attemptFailure :: "env \<Rightarrow> URL \<Rightarrow> event list \<Rightarrow> error option" where
  "attemptFailure env fundUrl tr =
     (case httpDo env tr fundUrl of
        Inl e \<Rightarrow> Some (HttpGetError e fundUrl)
      | Inr resp \<Rightarrow>
          if StatusCode resp \<noteq> 200 then Some (HttpCodeError (StatusCode resp) fundUrl)
          else None)"

text \<open>The events of \<open>k\<close> requests for one URL.\<close>

definition sent :: "URL \<Rightarrow> nat \<Rightarrow> event list" where
  "sent fundUrl k = replicate k (Request fundUrl)"

text \<open>
  The point that the library makes of a record whose date parses, when it accepts it; a
  text that \<open>strconv.ParseFloat\<close> turns into a NaN or an infinity; and what the library
  requires of a record's point.
\<close>

definition pointOf :: "env \<Rightarrow> (string \<rightharpoonup> string) \<Rightarrow> FundDetail \<Rightarrow> point" where
  "pointOf env tags fund =
     \<lparr>ptName = ''fund'', ptTags = keptTags tags, ptFields = map_of (fieldsOf env fund),
      ptTime = projr (parseLocal env (FSRQ fund))\<rparr>"

definition nonFiniteParse :: "env \<Rightarrow> string \<Rightarrow> bool" where
  "nonFiniteParse env src = (case parseFloat env src of Inr v \<Rightarrow> nonFinite v | Inl _ \<Rightarrow> False)"

definition pointAccepted :: "env \<Rightarrow> (string \<rightharpoonup> string) \<Rightarrow> FundDetail \<Rightarrow> int \<Rightarrow> bool" where
  "pointAccepted env tags fund t =
     (checkTime env t = None
      \<and> \<not> nonFiniteParse env (DWJZ fund)
      \<and> \<not> nonFiniteParse env (LJJZ fund)
      \<and> \<not> nonFiniteParse env (JZZZL fund)
      \<and> checkKey env ''fund'' tags 7 = None)"

text \<open>The URL that \<open>getFund\<close> requests for an instrument, after the events \<open>tr\<close>.\<close>

definition fundUrlOf :: "env \<Rightarrow> FundNode \<Rightarrow> event list \<Rightarrow> string" where
  "fundUrlOf env node tr =
     historyUrl (Code node) 1 (sint ((nowUnix env tr - 2) * 1000 - randInt63n env tr 1000))"

text \<open>The batches handed to the store, and the number of pauses, in a trace.\<close>

fun writes :: "event list \<Rightarrow> batchPoints list" where
  "writes [] = []"
| "writes (Write bp # tr) = bp # writes tr"
| "writes (e # tr) = writes tr"

fun sleeps :: "event list \<Rightarrow> nat" where
  "sleeps [] = 0"
| "sleeps (Sleep # tr) = Suc (sleeps tr)"
| "sleeps (e # tr) = sleeps tr"

text \<open>The errors that \<open>run\<close> logged in a trace, each with the code and the name of its instrument.\<close>

fun loggedErrors :: "event list \<Rightarrow> (string \<times> string \<times> error) list" where
  "loggedErrors [] = []"
| "loggedErrors (LogGetFundError code name err # tr) = (code, name, err) # loggedErrors tr"
| "loggedErrors (e # tr) = loggedErrors tr"

text \<open>
  The scanner is inside an object or an array; and a step that leaves it inside one,
  unless the step closes an object or an array or fails.
\<close>

definition inValue :: "scanner \<Rightarrow> bool" where
  "inValue s = (parseStack s \<noteq> [] \<and> stepFn s \<noteq> StEndTop)"

definition staysIn :: "scanCode \<times> scanner \<Rightarrow> bool" where
  "staysIn r =
     (fst r \<noteq> scanEnd
      \<and> (fst r \<noteq> scanEndObject \<and> fst r \<noteq> scanEndArray \<and> fst r \<noteq> scanError \<longrightarrow> inValue (snd r)))"

text \<open>
  Modelled from RFC 8259, not from the code: the grammar of JSON over bytes, against
  which the scanner is compared. Whitespace is allowed around every value, key and
  separator. A string holds the escapes and any byte from \<open>0x20\<close> on other than the
  quotation mark and the backslash, which includes all of UTF-8. \<open>rfcValue d\<close> holds of
  the texts of the values in which arrays and objects are nested at most \<open>d\<close> deep, and
  \<open>rfcObject\<close> of the objects nested no deeper than the scanner allows.
\<close>

definition rfcWs :: "string \<Rightarrow> bool" where
  "rfcWs w = (\<forall>c\<in>set w. c \<in> {CHR '' '', CHR 0x09, CHR 0x0A, CHR 0x0D})"

definition rfcDigits :: "string \<Rightarrow> bool" where
  "rfcDigits ds = (\<forall>c\<in>set ds. c \<in> set ''0123456789'')"

definition rfcInt :: "string \<Rightarrow> bool" where
  "rfcInt i = (i = ''0'' \<or> (\<exists>d ds. i = d # ds \<and> d \<in> set ''123456789'' \<and> rfcDigits ds))"

definition rfcFrac :: "string \<Rightarrow> bool" where
  "rfcFrac f = (f = [] \<or> (\<exists>ds. f = CHR ''.'' # ds \<and> ds \<noteq> [] \<and> rfcDigits ds))"

definition rfcExp :: "string \<Rightarrow> bool" where
  "rfcExp e =
     (e = [] \<or> (\<exists>x sg ds. e = x # sg @ ds \<and> x \<in> {CHR ''e'', CHR ''E''}
                   \<and> sg \<in> {[], ''+'', ''-''} \<and> ds \<noteq> [] \<and> rfcDigits ds))"

definition rfcNumber :: "string \<Rightarrow> bool" where
  "rfcNumber s =
     (\<exists>m i f e. s = m @ i @ f @ e \<and> m \<in> {[], ''-''} \<and> rfcInt i \<and> rfcFrac f \<and> rfcExp e)"

inductive rfcChars :: "string \<Rightarrow> bool" where
  none: "rfcChars []"
| plain: "0x20 \<le> (of_char c :: nat) \<Longrightarrow> c \<noteq> CHR 0x22 \<Longrightarrow> c \<noteq> CHR 0x5C \<Longrightarrow> rfcChars cs \<Longrightarrow>
     rfcChars (c # cs)"
| escape: "c \<in> {CHR 0x22, CHR 0x5C, CHR ''/'', CHR ''b'', CHR ''f'', CHR ''n'', CHR ''r'', CHR ''t''} \<Longrightarrow>
     rfcChars cs \<Longrightarrow> rfcChars (CHR 0x5C # c # cs)"
| unicode: "set [h1, h2, h3, h4] \<subseteq> set ''0123456789abcdefABCDEF'' \<Longrightarrow> rfcChars cs \<Longrightarrow>
     rfcChars (CHR 0x5C # CHR ''u'' # h1 # h2 # h3 # h4 # cs)"

definition rfcString :: "string \<Rightarrow> bool" where
  "rfcString s = (\<exists>cs. s = CHR 0x22 # cs @ [CHR 0x22] \<and> rfcChars cs)"

inductive rfcValue :: "nat \<Rightarrow> string \<Rightarrow> bool"
  and rfcElements :: "nat \<Rightarrow> string \<Rightarrow> bool"
  and rfcMembers :: "nat \<Rightarrow> string \<Rightarrow> bool" where
  true: "rfcValue d ''true''"
| false: "rfcValue d ''false''"
| null: "rfcValue d ''null''"
| number: "rfcNumber s \<Longrightarrow> rfcValue d s"
| string: "rfcString s \<Longrightarrow> rfcValue d s"
| emptyArray: "rfcWs w \<Longrightarrow> rfcValue (Suc d) (CHR ''['' # w @ '']'')"
| array: "rfcElements d es \<Longrightarrow> rfcValue (Suc d) (CHR ''['' # es @ '']'')"
| emptyObject: "rfcWs w \<Longrightarrow> rfcValue (Suc d) (CHR ''{'' # w @ ''}'')"
| object: "rfcMembers d ms \<Longrightarrow> rfcValue (Suc d) (CHR ''{'' # ms @ ''}'')"
| element: "rfcWs w1 \<Longrightarrow> rfcValue d v \<Longrightarrow> rfcWs w2 \<Longrightarrow> rfcElements d (w1 @ v @ w2)"
| elements: "rfcWs w1 \<Longrightarrow> rfcValue d v \<Longrightarrow> rfcWs w2 \<Longrightarrow> rfcElements d es \<Longrightarrow>
     rfcElements d (w1 @ v @ w2 @ CHR '','' # es)"
| member: "rfcWs w1 \<Longrightarrow> rfcString k \<Longrightarrow> rfcWs w2 \<Longrightarrow> rfcWs w3 \<Longrightarrow> rfcValue d v \<Longrightarrow> rfcWs w4 \<Longrightarrow>
     rfcMembers d (w1 @ k @ w2 @ CHR '':'' # w3 @ v @ w4)"
| members: "rfcWs w1 \<Longrightarrow> rfcString k \<Longrightarrow> rfcWs w2 \<Longrightarrow> rfcWs w3 \<Longrightarrow> rfcValue d v \<Longrightarrow> rfcWs w4 \<Longrightarrow>
     rfcMembers d ms \<Longrightarrow>
     rfcMembers d (w1 @ k @ w2 @ CHR '':'' # w3 @ v @ w4 @ CHR '','' # ms)"

definition rfcObject :: "string \<Rightarrow> bool" where
  "rfcObject obj =
     (\<exists>d body. Suc d \<le> maxNestingDepth \<and> obj = CHR ''{'' # body @ ''}''
        \<and> (rfcWs body \<or> rfcMembers d body))"

text \<open>
  Notions of the comparison. The scanner in a state, with a stack. The scanner goes
  through a text from one state to another, when \<open>readValue\<close> in the first state before
  the text is \<open>readValue\<close> in the second after it. The states in which a value may begin;
  in which a value or a key may begin; and in which a value has ended or a number may
  end. The bytes that may follow a value.
\<close>

abbreviation sc :: "parseState list \<Rightarrow> stepState \<Rightarrow> scanner" where
  "sc ps x \<equiv> \<lparr>stepFn = x, parseStack = ps\<rparr>"

definition passes :: "scanner \<Rightarrow> string \<Rightarrow> scanner \<Rightarrow> bool" where
  "passes s w s' =
     (\<forall>buf rest n. readValueLoop buf s (w @ rest) n = readValueLoop buf s' rest (n + length w))"

definition valueState :: "stepState \<Rightarrow> bool" where
  "valueState x = (x \<in> {StBeginValue, StBeginValueOrEmpty})"

definition beginState :: "stepState \<Rightarrow> bool" where
  "beginState x = (x \<in> {StBeginValue, StBeginValueOrEmpty, StBeginString, StBeginStringOrEmpty})"

definition ended :: "stepState \<Rightarrow> bool" where
  "ended x = (x \<in> {StEndValue, St0, St1, StDot0, StE0})"

definition delim :: "char \<Rightarrow> bool" where
  "delim c = (c \<in> {CHR '' '', CHR 0x09, CHR 0x0A, CHR 0x0D, CHR '','', CHR ''}'', CHR '']'', CHR '':''})"

section \<open>Sample inputs\<close>

text \<open>
  Concrete bodies, records and worlds, at which the properties below are checked by
  evaluation.
\<close>

definition okResponse :: "string \<Rightarrow> response" where
  "okResponse body = \<lparr>StatusCode = 200, Body = body, BodyErr = None\<rparr>"

definition payload2 :: string where
  \<open>payload2 = ''var r = [["001","A","Alpha","T1","a"],["002","B","Beta","T2","b"]];''\<close>

definition payload3 :: string where
  \<open>payload3 = ''var r = [["001","A","Alpha","T1","a"],["002","B","Beta","T2"],["003","C","Gamma","T3","c"]];''\<close>

definition payload1 :: string where
  \<open>payload1 = ''var r = [["001","A","Alpha","T1"],["002","B","Beta","T2","b"]];''\<close>

definition payloadShort :: string where
  "payloadShort = ''var r=[];''"

definition historyJson :: string where
  \<open>historyJson = ''{"ErrCode":0,"ErrMsg":"","TotalCount":1,"Data":{"LSJZList":[{"FSRQ":"2024-01-02","DWJZ":"1.234","LJJZ":"2.345","JZZZL":"0.12"}]}}''\<close>

definition historyBody :: string where
  "historyBody = ''jQuery123('' @ historyJson @ '')''"

definition historyRecord :: FundDetail where
  "historyRecord =
     \<lparr>FSRQ = ''2024-01-02'', DWJZ = ''1.234'', LJJZ = ''2.345'', SDATE = [], ACTUALSYI = [],
      NAVTYPE = [], JZZZL = ''0.12'', SGZT = [], SHZT = [],
      FHFCZ = [], FHFCBZ = [], DTYPE = [], FHSP = []\<rparr>"

definition historyInfo :: FundInfo where
  "historyInfo =
     \<lparr>Data = \<lparr>LSJZList = [historyRecord], FundType = [], SYType = [], isNewType = False,
              Feature = []\<rparr>,
      ErrCode = 0, ErrMsg = [], TotalCount = 1, Expansion = [], PageSize = 0, PageIndex = 0\<rparr>"

definition errorJson :: string where
  \<open>errorJson = ''{"ErrCode":-1,"ErrMsg":"bad","PageSize":20,"PageIndex":1}''\<close>

definition errorBody :: string where
  "errorBody = ''jQuer('' @ errorJson @ '')''"

definition errorInfo :: FundInfo where
  "errorInfo =
     \<lparr>Data = \<lparr>LSJZList = [], FundType = [], SYType = [], isNewType = False, Feature = []\<rparr>,
      ErrCode = - 1, ErrMsg = ''bad'', TotalCount = 0, Expansion = [], PageSize = 20,
      PageIndex = 1\<rparr>"

definition sampleRecord :: FundDetail where
  "sampleRecord =
     \<lparr>FSRQ = ''2024-01-02'', DWJZ = [], LJJZ = ''n/a'', SDATE = [], ACTUALSYI = [],
      NAVTYPE = ''1'', JZZZL = ''0.12'', SGZT = ''open'', SHZT = ''closed'',
      FHFCZ = [], FHFCBZ = [], DTYPE = [], FHSP = []\<rparr>"

definition nextRecord :: FundDetail where
  "nextRecord = sampleRecord\<lparr>FSRQ := ''2024-01-03'', DWJZ := ''1.234''\<rparr>"

definition undatedRecord :: FundDetail where
  "undatedRecord = sampleRecord\<lparr>FSRQ := ''--''\<rparr>"

definition nanRecord :: FundDetail where
  "nanRecord = sampleRecord\<lparr>FSRQ := ''2024-01-03'', DWJZ := ''NaN''\<rparr>"

definition sampleNode :: FundNode where
  "sampleNode = \<lparr>Code = ''001'', Abridge = ''A'', Name = ''Alpha'', Type = ''T1'', Pinyin = ''a''\<rparr>"

definition payloadBare :: string where
  \<open>payloadBare = ''var r = [["001","","Alpha","T1",""]];''\<close>

definition bareNode :: FundNode where
  "bareNode = \<lparr>Code = ''001'', Abridge = [], Name = ''Alpha'', Type = ''T1'', Pinyin = []\<rparr>"

definition envelope :: "FundDetail list \<Rightarrow> FundInfo" where
  "envelope funds =
     \<lparr>Data = \<lparr>LSJZList = funds, FundType = [], SYType = [], isNewType = False, Feature = []\<rparr>,
      ErrCode = 0, ErrMsg = [], TotalCount = int (length funds), Expansion = [],
      PageSize = 20, PageIndex = 1\<rparr>"

definition noInfo :: "string \<Rightarrow> string + FundInfo" where
  "noInfo s = Inl ''unexpected end of JSON input''"

text \<open>
  An object that is complete and well-formed but has a string where the envelope has a
  number; an object with every kind of value and none of the envelope's keys; an object
  with a value missing; and an object cut short.
\<close>

definition typeErrorJson :: string where
  \<open>typeErrorJson = ''{"ErrCode":"x"}''\<close>

definition richJson :: string where
  \<open>richJson = ''{"a":[1,-2.5e+3,0.5E-1,true,false,null,"x'' @ [CHR 0x5C] @ ''n''
                 @ [CHR 0x5C] @ ''u00e9",{}], "b" : { "c" : [ ] } }''\<close>

definition brokenJson :: string where
  \<open>brokenJson = ''{"ErrCode":}''\<close>

definition cutJson :: string where
  \<open>cutJson = ''{"ErrCode":0,"Data":{"LSJZList":[''\<close>

definition emptyInfo :: FundInfo where
  "emptyInfo =
     \<lparr>Data = \<lparr>LSJZList = [], FundType = [], SYType = [], isNewType = False, Feature = []\<rparr>,
      ErrCode = 0, ErrMsg = [], TotalCount = 0, Expansion = [], PageSize = 0, PageIndex = 0\<rparr>"

text \<open>What \<open>encoding/json\<close> makes of the sample texts.\<close>

definition demoUnmarshal :: "string \<Rightarrow> string + FundInfo" where
  "demoUnmarshal s =
     (if s = historyJson then Inr historyInfo
      else if s = errorJson then Inr errorInfo
      else if s = richJson then Inr emptyInfo
      else if s = typeErrorJson
        then Inl ''json: cannot unmarshal string into Go struct field FundInfo.ErrCode of type int''
      else Inl ''cannot unmarshal'')"

definition demoDates :: "string \<Rightarrow> string + int" where
  "demoDates s =
     (if s = ''2024-01-02'' then Inr 1704153600
      else if s = ''2024-01-03'' then Inr 1704240000
      else Inl ''Could not find format'')"

definition demoFloats :: "string \<Rightarrow> string + 64 word" where
  "demoFloats s =
     (if s = ''1.234'' then Inr 0x3FF3BE76C8B43958
      else if s = ''2.345'' then Inr 0x4002C28F5C28F5C3
      else if s = ''0.12'' then Inr 0x3FBEB851EB851EB8
      else if s = ''NaN'' then Inr 0x7FF8000000000001
      else Inl ''invalid syntax'')"

text \<open>
  A world whose \<open>n\<close>-th event is answered by \<open>replies n\<close> when it is a request, whose
  libraries accept every URL, batch and point, and whose store accepts every write.
\<close>

definition scriptedEnv ::
  "(nat \<Rightarrow> string + response) \<Rightarrow> (string \<Rightarrow> string + FundInfo) \<Rightarrow> env" where
  "scriptedEnv replies unm =
     \<lparr>urlParse = Inr,
      httpDo = (\<lambda>tr u. replies (length tr)),
      unmarshal = unm,
      parseLocal = demoDates,
      parseFloat = demoFloats,
      newBatchPoints = (\<lambda>db. None),
      checkTime = (\<lambda>t. None),
      checkKey = (\<lambda>name tags n. None),
      influxWrite = (\<lambda>tr bp. None),
      nowUnix = (\<lambda>tr. 1700000000),
      randInt63n = (\<lambda>tr n. 7)\<rparr>"

definition always :: "string \<Rightarrow> nat \<Rightarrow> string + response" where
  "always body n = Inr (okResponse body)"

definition reply500 :: "nat \<Rightarrow> string + response" where
  "reply500 n = Inr \<lparr>StatusCode = 500, Body = [], BodyErr = None\<rparr>"

text \<open>The catalog first, then the history of the first instrument, then the API's refusal.\<close>

definition cycleReplies :: "nat \<Rightarrow> string + response" where
  "cycleReplies n =
     (if n = 0 then Inr (okResponse payload3)
      else if n = 2 then Inr (okResponse historyBody)
      else Inr (okResponse errorBody))"

definition catalogEnv :: "string \<Rightarrow> env" where
  "catalogEnv body = scriptedEnv (always body) noInfo"

definition failingEnv :: env where
  "failingEnv = scriptedEnv reply500 noInfo"

definition storeEnv :: env where
  "storeEnv = scriptedEnv (always []) noInfo"

definition historyEnv :: env where
  "historyEnv = scriptedEnv (always historyBody) demoUnmarshal"

definition errorEnv :: env where
  "errorEnv = scriptedEnv (always errorBody) demoUnmarshal"

definition cycleEnv :: env where
  "cycleEnv = scriptedEnv cycleReplies demoUnmarshal"

section \<open>Properties of the string functions\<close>

lemmas string_eval =
  HasPrefix_def HasSuffix_def Index_def Split.simps Trim_def TrimSpace_def
  TrimLeftSpace.simps TrimRightSpace.simps leadingSpace_def trailingSpace_def
  asciiSpace_def unicodeSpaces_def afterFirst_def cutset_def fieldSep_def

lemma indexFrom_char:
  "indexFrom i s [c] =
     (if c \<in> set s then int i + int (length (takeWhile (\<lambda>x. x \<noteq> c) s)) else - 1)"
  by (induction s arbitrary: i) (auto simp: HasPrefix_def)

lemma Index_char:
  "Index s [c] = (if c \<in> set s then int (length (takeWhile (\<lambda>x. x \<noteq> c) s)) else - 1)"
  by (simp add: Index_def indexFrom_char)

lemma takeWhile_shorter: "c \<in> set s \<Longrightarrow> length (takeWhile (\<lambda>x. x \<noteq> c) s) < length s"
  by (induction s) auto

text \<open>The slice \<open>s[Index(s, c):]\<close> is in range whenever \<open>c\<close> occurs, and starts at it.\<close>

lemma Slice_from_Index:
  "Slice s (Index s [c]) (int (length s)) =
     (if c \<in> set s then Some (dropWhile (\<lambda>x. x \<noteq> c) s) else None)"
  using takeWhile_shorter [of c s]
  by (auto simp: Slice_def Index_char dropWhile_eq_drop)

text \<open>The slice \<open>s[Index(s, c)+1:]\<close> never panics.\<close>

lemma Slice_after_Index:
  "Slice s (Index s [c] + 1) (int (length s)) = Some (afterFirst c s)"
proof (cases "c \<in> set s")
  case True
  then have "length (takeWhile (\<lambda>x. x \<noteq> c) s) < length s"
    by (rule takeWhile_shorter)
  moreover have "nat (int (length (takeWhile (\<lambda>x. x \<noteq> c) s)) + 1)
      = Suc (length (takeWhile (\<lambda>x. x \<noteq> c) s))"
    by simp
  ultimately show ?thesis using True
    by (simp add: Slice_def Index_char afterFirst_def dropWhile_eq_drop drop_Suc tl_drop)
next
  case False
  then show ?thesis by (simp add: Slice_def Index_char afterFirst_def)
qed

text \<open>The slice \<open>s[1:len(s)-3]\<close> panics exactly on the strings of fewer than four bytes.\<close>

lemma Slice_strip:
  "Slice s 1 (int (length s) - 3) =
     (if length s < 4 then None else Some (drop 1 (take (length s - 3) s)))"
  by (auto simp: Slice_def nat_diff_distrib)

lemma filter_single:
  assumes "j < length ts" and "Q (ts ! j)" and "\<forall>i<length ts. i \<noteq> j \<longrightarrow> \<not> Q (ts ! i)"
  shows "filter Q ts = [ts ! j]"
proof -
  have parts: "ts = take j ts @ ts ! j # drop (Suc j) ts"
    using assms(1) by (rule id_take_nth_drop)
  have "\<forall>x\<in>set (take j ts). \<not> Q x"
  proof
    fix x assume "x \<in> set (take j ts)"
    then obtain i where "i < length (take j ts)" and "take j ts ! i = x"
      by (auto simp: in_set_conv_nth)
    with assms show "\<not> Q x" by auto
  qed
  then have before: "filter Q (take j ts) = []" by (simp add: filter_empty_conv)
  have "\<forall>x\<in>set (drop (Suc j) ts). \<not> Q x"
  proof
    fix x assume "x \<in> set (drop (Suc j) ts)"
    then obtain i where "i < length (drop (Suc j) ts)" and "drop (Suc j) ts ! i = x"
      by (auto simp: in_set_conv_nth)
    with assms show "\<not> Q x" by auto
  qed
  then have after: "filter Q (drop (Suc j) ts) = []" by (simp add: filter_empty_conv)
  have "filter Q ts = filter Q (take j ts @ ts ! j # drop (Suc j) ts)"
    using parts by simp
  also have "\<dots> = [ts ! j]" using before after assms(2) by simp
  finally show ?thesis .
qed

section \<open>The sample worlds\<close>

lemma scripted_simps:
  "urlParse (scriptedEnv replies unm) = Inr"
  "httpDo (scriptedEnv replies unm) tr u = replies (length tr)"
  "unmarshal (scriptedEnv replies unm) = unm"
  "parseLocal (scriptedEnv replies unm) = demoDates"
  "parseFloat (scriptedEnv replies unm) = demoFloats"
  "newBatchPoints (scriptedEnv replies unm) db = None"
  "checkTime (scriptedEnv replies unm) t = None"
  "checkKey (scriptedEnv replies unm) name tags n = None"
  "influxWrite (scriptedEnv replies unm) tr bp = None"
  by (simp_all add: scriptedEnv_def)

lemma scripted_fetch:
  "replies (length tr) = Inr (okResponse body) \<Longrightarrow>
   getHttpResponse (scriptedEnv replies unm) u tr = ((Some (okResponse body), None), tr @ [Request u])"
  by (simp add: getHttpResponse_def scripted_simps numeral_3_eq_3 okResponse_def)

lemma catalogEnv_fetch:
  "getHttpResponse (catalogEnv body) catalogUrl [] =
     ((Some (okResponse body), None), [Request catalogUrl])"
  by (simp add: getHttpResponse_def catalogEnv_def scriptedEnv_def always_def okResponse_def
      numeral_3_eq_3)

lemma storeEnv_simps:
  "parseLocal storeEnv = demoDates"
  "parseFloat storeEnv = demoFloats"
  "newBatchPoints storeEnv db = None"
  "checkTime storeEnv t = None"
  "checkKey storeEnv name tags n = None"
  "influxWrite storeEnv tr bp = None"
  by (simp_all add: storeEnv_def scriptedEnv_def)

lemma sample_dates:
  "demoDates (FSRQ sampleRecord) = Inr 1704153600"
  "demoDates (FSRQ nextRecord) = Inr 1704240000"
  "demoDates (FSRQ undatedRecord) = Inl ''Could not find format''"
  "demoDates (FSRQ nanRecord) = Inr 1704240000"
  by (simp_all add: demoDates_def sampleRecord_def nextRecord_def undatedRecord_def
      nanRecord_def)

section \<open>Properties of the catalog parser\<close>

text \<open>
  The loop fills the slots from left to right: after it, the list holds the record of
  every tuple at the tuple's own index, and the zero value where the tuple was logged.
\<close>

lemma nodeLoop_nodes:
  "nodeList = done @ replicate (length ts) zeroNode \<Longrightarrow> i = length done \<Longrightarrow>
   fst (nodeLoop i ts nodeList tr) = done @ map nodeOf ts"
proof (induction ts arbitrary: i nodeList tr "done")
  case Nil
  then show ?case by simp
next
  case (Cons t ts)
  show ?case
  proof (cases "length (Split t fieldSep) = 5")
    case True
    have "fst (nodeLoop (Suc i) ts (nodeList[i := nodeOf t]) tr)
        = (done @ [nodeOf t]) @ map nodeOf ts"
      using Cons.prems by (intro Cons.IH) (simp_all add: list_update_append)
    with True show ?thesis by (simp add: nodeOf_def Let_def)
  next
    case False
    have "fst (nodeLoop (Suc i) ts nodeList (tr @ [LogInvalidNode t]))
        = (done @ [zeroNode]) @ map nodeOf ts"
      using Cons.prems by (intro Cons.IH) simp_all
    with False show ?thesis by (simp add: nodeOf_def Let_def)
  qed
qed

lemma nodeLoop_trace:
  "snd (nodeLoop i ts nodeList tr) =
     tr @ map LogInvalidNode (filter (\<lambda>t. length (Split t fieldSep) \<noteq> 5) ts)"
  by (induction ts arbitrary: i nodeList tr) (simp_all add: Let_def)

text \<open>What \<open>getNodeList\<close> returns once the catalog has been fetched.\<close>

lemma getNodeList_fetched:
  assumes "getHttpResponse env catalogUrl tr = ((Some resp, None), tr1)"
  shows "getNodeList env tr =
     (if length (TrimSpace (afterFirst CHR ''='' (Body resp))) < 4
      then (Panic SliceOutOfRange, tr1)
      else (Return (Inr (map nodeOf (catalogTuples (Body resp)))),
            tr1 @ map LogInvalidNode
                    (filter (\<lambda>t. length (Split t fieldSep) \<noteq> 5) (catalogTuples (Body resp)))))"
proof -
  have nodes: "fst (nodeLoop 0 ts (replicate (length ts) zeroNode) tr1) = map nodeOf ts" for ts
    using nodeLoop_nodes [of "replicate (length ts) zeroNode" "[]" ts 0 tr1] by simp
  show ?thesis
    by (simp add: getNodeList_def assms Slice_after_Index Slice_strip Let_def
        case_prod_beta nodes nodeLoop_trace catalogTuples_def)
qed

subsection \<open>The sample catalogs\<close>

lemma payload2_trim:
  \<open>TrimSpace (afterFirst CHR ''='' payload2) =
     ''[["001","A","Alpha","T1","a"],["002","B","Beta","T2","b"]];''\<close>
  by (simp add: payload2_def string_eval)

lemma payload2_tuples:
  \<open>catalogTuples payload2 = [''["001","A","Alpha","T1","a"'', ''["002","B","Beta","T2","b"'']\<close>
  by (simp add: catalogTuples_def payload2_trim) (simp add: string_eval)

lemma payload2_fields:
  \<open>Split ''["001","A","Alpha","T1","a"'' fieldSep = [''["001'', ''A'', ''Alpha'', ''T1'', ''a"'']\<close>
  \<open>Split ''["002","B","Beta","T2","b"'' fieldSep = [''["002'', ''B'', ''Beta'', ''T2'', ''b"'']\<close>
  by (simp_all add: string_eval)

lemma payload2_nodes:
  \<open>nodeOf ''["001","A","Alpha","T1","a"'' =
     \<lparr>Code = ''001'', Abridge = ''A'', Name = ''Alpha'', Type = ''T1'', Pinyin = ''a''\<rparr>\<close>
  \<open>nodeOf ''["002","B","Beta","T2","b"'' =
     \<lparr>Code = ''002'', Abridge = ''B'', Name = ''Beta'', Type = ''T2'', Pinyin = ''b''\<rparr>\<close>
  by (simp_all add: nodeOf_def payload2_fields) (simp_all add: Trim_def cutset_def)

lemma payload3_trim:
  \<open>TrimSpace (afterFirst CHR ''='' payload3) =
     ''[["001","A","Alpha","T1","a"],["002","B","Beta","T2"],["003","C","Gamma","T3","c"]];''\<close>
  by (simp add: payload3_def string_eval)

lemma payload3_tuples:
  \<open>catalogTuples payload3 =
     [''["001","A","Alpha","T1","a"'', ''["002","B","Beta","T2"'', ''["003","C","Gamma","T3","c"'']\<close>
  by (simp add: catalogTuples_def payload3_trim) (simp add: string_eval)

lemma payload3_fields:
  \<open>Split ''["002","B","Beta","T2"'' fieldSep = [''["002'', ''B'', ''Beta'', ''T2"'']\<close>
  \<open>Split ''["003","C","Gamma","T3","c"'' fieldSep = [''["003'', ''C'', ''Gamma'', ''T3'', ''c"'']\<close>
  by (simp_all add: string_eval)

lemma payload3_nodes:
  \<open>nodeOf ''["002","B","Beta","T2"'' = zeroNode\<close>
  \<open>nodeOf ''["003","C","Gamma","T3","c"'' =
     \<lparr>Code = ''003'', Abridge = ''C'', Name = ''Gamma'', Type = ''T3'', Pinyin = ''c''\<rparr>\<close>
  by (simp_all add: nodeOf_def payload3_fields) (simp_all add: Trim_def cutset_def)

lemma payload1_trim:
  \<open>TrimSpace (afterFirst CHR ''='' payload1) =
     ''[["001","A","Alpha","T1"],["002","B","Beta","T2","b"]];''\<close>
  by (simp add: payload1_def string_eval)

lemma payload1_tuples:
  \<open>catalogTuples payload1 = [''["001","A","Alpha","T1"'', ''["002","B","Beta","T2","b"'']\<close>
  by (simp add: catalogTuples_def payload1_trim) (simp add: string_eval)

lemma payload1_fields:
  \<open>Split ''["001","A","Alpha","T1"'' fieldSep = [''["001'', ''A'', ''Alpha'', ''T1"'']\<close>
  by (simp add: string_eval)

lemma payloadBare_trim:
  \<open>TrimSpace (afterFirst CHR ''='' payloadBare) = ''[["001","","Alpha","T1",""]];''\<close>
  by (simp add: payloadBare_def string_eval)

lemma payloadBare_tuples:
  \<open>catalogTuples payloadBare = [''["001","","Alpha","T1",""'']\<close>
  by (simp add: catalogTuples_def payloadBare_trim) (simp add: string_eval)

lemma payloadBare_fields:
  \<open>Split ''["001","","Alpha","T1",""'' fieldSep = [''["001'', [], ''Alpha'', ''T1'', ''"'']\<close>
  by (simp add: string_eval)

lemma payloadBare_nodes:
  \<open>nodeOf ''["001","","Alpha","T1",""'' = bareNode\<close>
  by (simp add: nodeOf_def payloadBare_fields) (simp add: Trim_def cutset_def bareNode_def)

lemma payloadShort_trim: "TrimSpace (afterFirst CHR ''='' payloadShort) = ''[];''"
  by (simp add: payloadShort_def string_eval)

subsection \<open>Well-formed and malformed tuples\<close>

text \<open>
  Claim C2. When the fetched catalog body is
  \<open>var r = [["001","A","Alpha","T1","a"],["002","B","Beta","T2","b"]];\<close>,
  \<open>getNodeList\<close> returns exactly two records, whose code, abbreviation, name, type and
  romanized name are the fields of the two tuples, in the order of the source, and logs
  nothing.
\<close>

theorem getNodeList_wellformed_payload:
  assumes "getHttpResponse env catalogUrl tr = ((Some resp, None), tr1)"
    and "Body resp = payload2"
  shows "getNodeList env tr =
     (Return (Inr [\<lparr>Code = ''001'', Abridge = ''A'', Name = ''Alpha'', Type = ''T1'', Pinyin = ''a''\<rparr>,
                   \<lparr>Code = ''002'', Abridge = ''B'', Name = ''Beta'', Type = ''T2'', Pinyin = ''b''\<rparr>]),
      tr1)"
  by (simp add: getNodeList_fetched [OF assms(1)] assms(2) payload2_trim payload2_tuples
      payload2_nodes payload2_fields)

text \<open>Claim C2 in a world that answers the catalog request with that body.\<close>

theorem getNodeList_wellformed_payload_witness:
  "getHttpResponse (catalogEnv payload2) catalogUrl [] =
      ((Some (okResponse payload2), None), [Request catalogUrl])
   \<and> Body (okResponse payload2) = payload2
   \<and> getNodeList (catalogEnv payload2) [] =
     (Return (Inr [\<lparr>Code = ''001'', Abridge = ''A'', Name = ''Alpha'', Type = ''T1'', Pinyin = ''a''\<rparr>,
                   \<lparr>Code = ''002'', Abridge = ''B'', Name = ''Beta'', Type = ''T2'', Pinyin = ''b''\<rparr>]),
      [Request catalogUrl])"
proof -
  have b: "Body (okResponse payload2) = payload2" by (simp add: okResponse_def)
  show ?thesis
    using getNodeList_wellformed_payload [OF catalogEnv_fetch b] catalogEnv_fetch b by simp
qed

text \<open>
  Claim C1, as amended. Let a fetched catalog body be long enough to be sliced, and let
  exactly one of its \<open>N\<close> raw tuples, the one at index \<open>j\<close>, split into 4 fields and all
  the others into 5. Then \<open>getNodeList\<close> returns \<open>N\<close> records, not \<open>N - 1\<close>: the slot \<open>j\<close>
  holds the zero-valued record (five empty strings), every other slot holds the five
  trimmed fields of its own tuple, and the malformed tuple is logged once.
\<close>

theorem getNodeList_malformed_tuple_keeps_slot:
  assumes "getHttpResponse env catalogUrl tr = ((Some resp, None), tr1)"
    and "4 \<le> length (TrimSpace (afterFirst CHR ''='' (Body resp)))"
    and "tuples = catalogTuples (Body resp)"
    and "j < length tuples"
    and "length (Split (tuples ! j) fieldSep) = 4"
    and "\<forall>i<length tuples. i \<noteq> j \<longrightarrow> length (Split (tuples ! i) fieldSep) = 5"
  shows "\<exists>nodeList.
      getNodeList env tr = (Return (Inr nodeList), tr1 @ [LogInvalidNode (tuples ! j)])
    \<and> length nodeList = length tuples
    \<and> nodeList ! j = zeroNode
    \<and> (\<forall>i<length tuples. i \<noteq> j \<longrightarrow>
          nodeList ! i =
            \<lparr>Code = Trim (Split (tuples ! i) fieldSep ! 0) cutset,
             Abridge = Trim (Split (tuples ! i) fieldSep ! 1) cutset,
             Name = Trim (Split (tuples ! i) fieldSep ! 2) cutset,
             Type = Trim (Split (tuples ! i) fieldSep ! 3) cutset,
             Pinyin = Trim (Split (tuples ! i) fieldSep ! 4) cutset\<rparr>)"
proof -
  let ?Q = "\<lambda>t. length (Split t fieldSep) \<noteq> 5"
  have "filter ?Q tuples = [tuples ! j]"
    using assms(4-6) by (intro filter_single) simp_all
  then have "getNodeList env tr =
      (Return (Inr (map nodeOf tuples)), tr1 @ [LogInvalidNode (tuples ! j)])"
    using assms(2,3) by (simp add: getNodeList_fetched [OF assms(1)])
  moreover have "map nodeOf tuples ! j = zeroNode"
    using assms(4,5) by (simp add: nodeOf_def)
  moreover have "\<forall>i<length tuples. i \<noteq> j \<longrightarrow> map nodeOf tuples ! i =
            \<lparr>Code = Trim (Split (tuples ! i) fieldSep ! 0) cutset,
             Abridge = Trim (Split (tuples ! i) fieldSep ! 1) cutset,
             Name = Trim (Split (tuples ! i) fieldSep ! 2) cutset,
             Type = Trim (Split (tuples ! i) fieldSep ! 3) cutset,
             Pinyin = Trim (Split (tuples ! i) fieldSep ! 4) cutset\<rparr>"
    using assms(6) by (simp add: nodeOf_def Let_def)
  ultimately show ?thesis by simp
qed

text \<open>
  The amended claim C1 at a catalog of two tuples whose first has four fields: two
  records come back, the first of them zero-valued, and the first tuple is logged.
\<close>

theorem getNodeList_malformed_tuple_keeps_slot_witness:
  \<open>length (catalogTuples payload1) = 2
   \<and> length (Split (catalogTuples payload1 ! 0) fieldSep) = 4
   \<and> length (Split (catalogTuples payload1 ! 1) fieldSep) = 5
   \<and> getNodeList (catalogEnv payload1) [] =
       (Return (Inr [zeroNode,
                     \<lparr>Code = ''002'', Abridge = ''B'', Name = ''Beta'', Type = ''T2'', Pinyin = ''b''\<rparr>]),
        [Request catalogUrl, LogInvalidNode ''["001","A","Alpha","T1"''])\<close>
proof -
  let ?ts = "catalogTuples payload1"
  have b: "Body (okResponse payload1) = payload1" by (simp add: okResponse_def)
  have h2: "4 \<le> length (TrimSpace (afterFirst CHR ''='' (Body (okResponse payload1))))"
    by (simp add: b payload1_trim)
  have h3: "?ts = catalogTuples (Body (okResponse payload1))" by (simp add: b)
  have h4: "0 < length ?ts" by (simp add: payload1_tuples)
  have h5: "length (Split (?ts ! 0) fieldSep) = 4" by (simp add: payload1_tuples payload1_fields)
  have h6: "\<forall>i<length ?ts. i \<noteq> 0 \<longrightarrow> length (Split (?ts ! i) fieldSep) = 5"
    by (simp add: payload1_tuples payload2_fields numeral_2_eq_2 All_less_Suc)
  from getNodeList_malformed_tuple_keeps_slot [OF catalogEnv_fetch h2 h3 h4 h5 h6]
  obtain nodeList where
    r: "getNodeList (catalogEnv payload1) [] =
          (Return (Inr nodeList), [Request catalogUrl] @ [LogInvalidNode (?ts ! 0)])"
    and l: "length nodeList = length ?ts"
    and z: "nodeList ! 0 = zeroNode"
    and o: "\<forall>i<length ?ts. i \<noteq> 0 \<longrightarrow> nodeList ! i =
            \<lparr>Code = Trim (Split (?ts ! i) fieldSep ! 0) cutset,
             Abridge = Trim (Split (?ts ! i) fieldSep ! 1) cutset,
             Name = Trim (Split (?ts ! i) fieldSep ! 2) cutset,
             Type = Trim (Split (?ts ! i) fieldSep ! 3) cutset,
             Pinyin = Trim (Split (?ts ! i) fieldSep ! 4) cutset\<rparr>"
    by blast
  from o have o1: "nodeList ! 1 =
      \<lparr>Code = ''002'', Abridge = ''B'', Name = ''Beta'', Type = ''T2'', Pinyin = ''b''\<rparr>"
    by (simp add: payload1_tuples payload2_fields Trim_def cutset_def)
  from l have "length nodeList = 2" by (simp add: payload1_tuples)
  then have "nodeList = [nodeList ! 0, nodeList ! 1]"
    by (cases nodeList; cases "tl nodeList") auto
  with z o1 have "nodeList = [zeroNode,
      \<lparr>Code = ''002'', Abridge = ''B'', Name = ''Beta'', Type = ''T2'', Pinyin = ''b''\<rparr>]"
    by simp
  with r h5 show ?thesis by (simp add: payload1_tuples payload2_fields)
qed

text \<open>
  Claim C1 as stated fails: a catalog of three tuples whose second has four fields
  yields three records, the second of them zero-valued, and not the two records of the
  well-formed tuples.
\<close>

theorem getNodeList_malformed_tuple_counterexample:
  \<open>length (catalogTuples payload3) = 3
   \<and> length (Split (catalogTuples payload3 ! 0) fieldSep) = 5
   \<and> length (Split (catalogTuples payload3 ! 1) fieldSep) = 4
   \<and> length (Split (catalogTuples payload3 ! 2) fieldSep) = 5
   \<and> fst (getNodeList (catalogEnv payload3) []) =
       Return (Inr [\<lparr>Code = ''001'', Abridge = ''A'', Name = ''Alpha'', Type = ''T1'', Pinyin = ''a''\<rparr>,
                    \<lparr>Code = [], Abridge = [], Name = [], Type = [], Pinyin = []\<rparr>,
                    \<lparr>Code = ''003'', Abridge = ''C'', Name = ''Gamma'', Type = ''T3'', Pinyin = ''c''\<rparr>])
   \<and> fst (getNodeList (catalogEnv payload3) []) \<noteq>
       Return (Inr [\<lparr>Code = ''001'', Abridge = ''A'', Name = ''Alpha'', Type = ''T1'', Pinyin = ''a''\<rparr>,
                    \<lparr>Code = ''003'', Abridge = ''C'', Name = ''Gamma'', Type = ''T3'', Pinyin = ''c''\<rparr>])\<close>
  by (simp add: getNodeList_fetched [OF catalogEnv_fetch] okResponse_def payload3_trim
      payload3_tuples payload3_fields payload2_fields payload3_nodes payload2_nodes zeroNode_def)

subsection \<open>Bodies too short to slice\<close>

text \<open>
  Claim C10. Once the catalog has been fetched, \<open>getNodeList\<close> panics with a slice out of
  range, and returns no error, exactly when the body's text after its first \<open>=\<close> (the
  whole body if it has none) is, after trimming white space, shorter than 4 bytes.
\<close>

theorem getNodeList_short_body_panics:
  assumes "getHttpResponse env catalogUrl tr = ((Some resp, None), tr1)"
  shows "(fst (getNodeList env tr) = Panic SliceOutOfRange)
           = (length (TrimSpace (afterFirst CHR ''='' (Body resp))) < 4)"
  by (simp add: getNodeList_fetched [OF assms])

text \<open>Claim C10 at the body \<open>var r=[];\<close>, whose trimmed rest \<open>[];\<close> has three bytes.\<close>

theorem getNodeList_short_body_panics_witness:
  "getHttpResponse (catalogEnv payloadShort) catalogUrl [] =
      ((Some (okResponse payloadShort), None), [Request catalogUrl])
   \<and> length (TrimSpace (afterFirst CHR ''='' (Body (okResponse payloadShort)))) < 4
   \<and> fst (getNodeList (catalogEnv payloadShort) []) = Panic SliceOutOfRange"
proof -
  have b: "Body (okResponse payloadShort) = payloadShort" by (simp add: okResponse_def)
  have "length (TrimSpace (afterFirst CHR ''='' (Body (okResponse payloadShort)))) < 4"
    by (simp add: b payloadShort_trim)
  with getNodeList_short_body_panics [OF catalogEnv_fetch, of payloadShort] catalogEnv_fetch
  show ?thesis by simp
qed

section \<open>Properties of the HTTP fetcher\<close>

lemma attempts_step:
  "attempts env fundUrl (Suc cnt) err tr =
     (case attemptFailure env fundUrl tr of
        Some e \<Rightarrow> attempts env fundUrl cnt (Some e) (tr @ [Request fundUrl])
      | None \<Rightarrow> ((Some (projr (httpDo env tr fundUrl)), None), tr @ [Request fundUrl]))"
  by (simp add: attemptFailure_def split: sum.splits)

lemma attemptFailure_None:
  "(attemptFailure env fundUrl tr = None) =
     (\<exists>resp. httpDo env tr fundUrl = Inr resp \<and> StatusCode resp = 200)"
  by (auto simp: attemptFailure_def split: sum.splits)

text \<open>
  Claim C7. If the URL does not parse, \<open>getHttpResponse\<close> returns that error and sends
  nothing. Otherwise it sends at most 3 requests: either one of the first three attempts
  is the first to succeed with status 200, and then its response is returned at once,
  after exactly that many requests; or all three attempts fail, and then the error of the
  third one is returned, which carries the URL and the transport error or the status
  code, after exactly 3 requests.
\<close>

theorem getHttpResponse_three_attempts:
  "case urlParse env u of
     Inl e \<Rightarrow> getHttpResponse env u tr = ((None, Some (UrlError e)), tr)
   | Inr fundUrl \<Rightarrow>
       (\<exists>k<3. (\<forall>j<k. attemptFailure env fundUrl (tr @ sent fundUrl j) \<noteq> None)
            \<and> (\<exists>resp. httpDo env (tr @ sent fundUrl k) fundUrl = Inr resp
                  \<and> StatusCode resp = 200
                  \<and> getHttpResponse env u tr = ((Some resp, None), tr @ sent fundUrl (k + 1))))
       \<or> ((\<forall>j<3. attemptFailure env fundUrl (tr @ sent fundUrl j) \<noteq> None)
            \<and> getHttpResponse env u tr =
                ((None, attemptFailure env fundUrl (tr @ sent fundUrl 2)), tr @ sent fundUrl 3))"
proof (cases "urlParse env u")
  case (Inl e)
  then show ?thesis by (simp add: getHttpResponse_def)
next
  case (Inr fundUrl)
  let ?f = "\<lambda>j. attemptFailure env fundUrl (tr @ sent fundUrl j)"
  let ?r = "\<lambda>j. projr (httpDo env (tr @ sent fundUrl j) fundUrl)"
  have run: "getHttpResponse env u tr =
      (case ?f 0 of
         None \<Rightarrow> ((Some (?r 0), None), tr @ sent fundUrl 1)
       | Some e0 \<Rightarrow>
          (case ?f 1 of
             None \<Rightarrow> ((Some (?r 1), None), tr @ sent fundUrl 2)
           | Some e1 \<Rightarrow>
              (case ?f 2 of
                 None \<Rightarrow> ((Some (?r 2), None), tr @ sent fundUrl 3)
               | Some e2 \<Rightarrow> ((None, Some e2), tr @ sent fundUrl 3))))"
    using Inr
    by (simp add: getHttpResponse_def numeral_3_eq_3 numeral_2_eq_2 attempts_step sent_def
        del: attempts.simps(2) split: option.splits)
  have ok: "?f j = None \<Longrightarrow>
      httpDo env (tr @ sent fundUrl j) fundUrl = Inr (?r j) \<and> StatusCode (?r j) = 200" for j
    by (auto simp: attemptFailure_None)
  consider (first) "?f 0 = None"
    | (second) "?f 0 \<noteq> None" "?f 1 = None"
    | (third) "?f 0 \<noteq> None" "?f 1 \<noteq> None" "?f 2 = None"
    | (none) "?f 0 \<noteq> None" "?f 1 \<noteq> None" "?f 2 \<noteq> None"
    by blast
  then have "(\<exists>k<3. (\<forall>j<k. ?f j \<noteq> None)
            \<and> (\<exists>resp. httpDo env (tr @ sent fundUrl k) fundUrl = Inr resp
                  \<and> StatusCode resp = 200
                  \<and> getHttpResponse env u tr = ((Some resp, None), tr @ sent fundUrl (k + 1))))
       \<or> ((\<forall>j<3. ?f j \<noteq> None)
            \<and> getHttpResponse env u tr = ((None, ?f 2), tr @ sent fundUrl 3))"
  proof cases
    case first
    have "getHttpResponse env u tr = ((Some (?r 0), None), tr @ sent fundUrl 1)"
      using first by (simp add: run)
    with ok [OF first] have "(\<forall>j<0. ?f j \<noteq> None)
            \<and> (\<exists>resp. httpDo env (tr @ sent fundUrl 0) fundUrl = Inr resp
                  \<and> StatusCode resp = 200
                  \<and> getHttpResponse env u tr = ((Some resp, None), tr @ sent fundUrl 1))"
      by blast
    then show ?thesis
      by (intro disjI1 exI [of _ 0] conjI) (simp_all add: numeral_2_eq_2 numeral_3_eq_3)
  next
    case second
    have "getHttpResponse env u tr = ((Some (?r 1), None), tr @ sent fundUrl 2)"
      using second by (auto simp: run)
    moreover have "\<forall>j<1. ?f j \<noteq> None" using second(1) by simp
    ultimately have "(\<forall>j<1. ?f j \<noteq> None)
            \<and> (\<exists>resp. httpDo env (tr @ sent fundUrl 1) fundUrl = Inr resp
                  \<and> StatusCode resp = 200
                  \<and> getHttpResponse env u tr = ((Some resp, None), tr @ sent fundUrl 2))"
      using ok [OF second(2)] by blast
    then show ?thesis
      by (intro disjI1 exI [of _ 1] conjI) (simp_all add: numeral_2_eq_2 numeral_3_eq_3)
  next
    case third
    have "getHttpResponse env u tr = ((Some (?r 2), None), tr @ sent fundUrl 3)"
      using third by (auto simp: run)
    moreover have "\<forall>j<2. ?f j \<noteq> None"
      using third(1,2) by (simp add: numeral_2_eq_2 All_less_Suc)
    ultimately have "(\<forall>j<2. ?f j \<noteq> None)
            \<and> (\<exists>resp. httpDo env (tr @ sent fundUrl 2) fundUrl = Inr resp
                  \<and> StatusCode resp = 200
                  \<and> getHttpResponse env u tr = ((Some resp, None), tr @ sent fundUrl 3))"
      using ok [OF third(3)] by blast
    then show ?thesis
      by (intro disjI1 exI [of _ 2] conjI) (simp_all add: numeral_2_eq_2 numeral_3_eq_3)
  next
    case none
    then have "getHttpResponse env u tr = ((None, ?f 2), tr @ sent fundUrl 3)"
      by (auto simp: run)
    moreover have "\<forall>j<3. ?f j \<noteq> None"
      using none by (simp add: numeral_2_eq_2 numeral_3_eq_3 All_less_Suc)
    ultimately show ?thesis by blast
  qed
  with Inr show ?thesis by simp
qed

lemma failingEnv_attempt:
  "attemptFailure failingEnv u tr = Some (HttpCodeError 500 u)"
  by (simp add: attemptFailure_def failingEnv_def scriptedEnv_def reply500_def)

text \<open>Claim C7 at an endpoint that answers every request with status 500.\<close>

theorem getHttpResponse_three_attempts_witness:
  "getHttpResponse failingEnv catalogUrl [] =
     ((None, Some (HttpCodeError 500 catalogUrl)),
      [Request catalogUrl, Request catalogUrl, Request catalogUrl])"
proof -
  have p: "urlParse failingEnv catalogUrl = Inr catalogUrl"
    by (simp add: failingEnv_def scriptedEnv_def)
  have "sent catalogUrl 3 = [Request catalogUrl, Request catalogUrl, Request catalogUrl]"
    by (simp add: sent_def numeral_3_eq_3)
  moreover have "httpDo failingEnv tr u = Inr \<lparr>StatusCode = 500, Body = [], BodyErr = None\<rparr>"
    for tr u
    by (simp add: failingEnv_def scriptedEnv_def reply500_def)
  ultimately show ?thesis
    using getHttpResponse_three_attempts [of failingEnv catalogUrl "[]"] by (simp add: p failingEnv_attempt)
qed

subsection \<open>What the fetcher adds to the trace\<close>

lemma writes_append: "writes (a @ b) = writes a @ writes b"
  by (induction a rule: writes.induct) simp_all

lemma sleeps_append: "sleeps (a @ b) = sleeps a + sleeps b"
  by (induction a rule: sleeps.induct) simp_all

lemma writes_sent: "writes (sent fundUrl k) = []"
  by (induction k) (simp_all add: sent_def)

lemma sleeps_sent: "sleeps (sent fundUrl k) = 0"
  by (induction k) (simp_all add: sent_def)

lemma attempts_trace:
  "\<exists>k\<le>cnt. snd (attempts env fundUrl cnt err tr) = tr @ sent fundUrl k"
proof (induction cnt arbitrary: err tr)
  case 0
  then show ?case by (simp add: sent_def)
next
  case (Suc cnt)
  have more: "\<exists>k\<le>Suc cnt. snd (attempts env fundUrl cnt e (tr @ [Request fundUrl])) = tr @ sent fundUrl k"
    for e
  proof -
    from Suc [of e "tr @ [Request fundUrl]"] obtain k where "k \<le> cnt"
      and "snd (attempts env fundUrl cnt e (tr @ [Request fundUrl]))
            = (tr @ [Request fundUrl]) @ sent fundUrl k"
      by blast
    then have "snd (attempts env fundUrl cnt e (tr @ [Request fundUrl])) = tr @ sent fundUrl (Suc k)"
      by (simp add: sent_def replicate_append_same)
    with \<open>k \<le> cnt\<close> show ?thesis by (intro exI [of _ "Suc k"]) simp
  qed
  have one: "\<exists>k\<le>Suc cnt. tr @ [Request fundUrl] = tr @ sent fundUrl k"
    by (intro exI [of _ "Suc 0"]) (simp add: sent_def)
  show ?case
    using more one by (simp split: sum.splits)
qed

lemma attempts_not_nil:
  "err \<noteq> None \<or> 0 < cnt \<Longrightarrow> fst (attempts env fundUrl cnt err tr) \<noteq> (None, None)"
  by (induction cnt arbitrary: err tr) (auto split: sum.splits)

lemma getHttpResponse_not_nil: "fst (getHttpResponse env u tr) \<noteq> (None, None)"
  using attempts_not_nil [of None 3]
  by (simp add: getHttpResponse_def split: sum.splits)

lemma getHttpResponse_trace:
  "\<exists>fundUrl k. k \<le> 3 \<and> snd (getHttpResponse env u tr) = tr @ sent fundUrl k"
proof (cases "urlParse env u")
  case (Inl e)
  then have "snd (getHttpResponse env u tr) = tr @ sent u 0"
    by (simp add: getHttpResponse_def sent_def)
  then show ?thesis by blast
next
  case (Inr fundUrl)
  with attempts_trace [of 3 env fundUrl None tr] show ?thesis
    by (auto simp: getHttpResponse_def)
qed

section \<open>Properties of the stream decoder and the history parser\<close>

text \<open>
  Inside an object or an array the scanner never reports the end of the value; it stays
  inside until a closing bracket empties the stack.
\<close>

lemma staysIn_goto: "inValue s \<Longrightarrow> st \<noteq> StEndTop \<Longrightarrow> code \<noteq> scanEnd \<Longrightarrow> staysIn (goto s st code)"
  by (simp add: staysIn_def goto_def inValue_def)

lemma staysIn_fail: "staysIn (scanFail s)"
  by (simp add: staysIn_def scanFail_def)

lemma staysIn_same: "inValue s \<Longrightarrow> code \<noteq> scanEnd \<Longrightarrow> staysIn (code, s)"
  by (simp add: staysIn_def)

lemma staysIn_expect: "inValue s \<Longrightarrow> st \<noteq> StEndTop \<Longrightarrow> staysIn (expect s ok st)"
  by (simp add: expect_def staysIn_goto staysIn_fail)

lemma staysIn_push:
  "code \<noteq> scanEnd \<Longrightarrow> stepFn s \<noteq> StEndTop \<Longrightarrow> staysIn (pushParseState s ps code)"
  by (simp add: pushParseState_def Let_def staysIn_def scanFail_def inValue_def)

lemma staysIn_stateEndValue: "inValue s \<Longrightarrow> staysIn (stateEndValue s c)"
  by (cases "parseStack s")
    (auto simp: stateEndValue_def inValue_def staysIn_def goto_def scanFail_def
      split: parseState.splits)

lemma staysIn_stateBeginValue: "inValue s \<Longrightarrow> staysIn (stateBeginValue s c)"
  by (simp add: stateBeginValue_def staysIn_goto staysIn_fail staysIn_same staysIn_push)

lemma staysIn_scanStep: "inValue s \<Longrightarrow> staysIn (scanStep s c)"
proof (cases "stepFn s")
  case StBeginStringOrEmpty
  assume s: "inValue s"
  then have "inValue (s\<lparr>parseStack := parseObjectValue # tl (parseStack s)\<rparr>)"
    by (simp add: inValue_def)
  with s StBeginStringOrEmpty show ?thesis
    by (simp add: scanStep_def stateBeginStringOrEmpty_def stateBeginString_def
        staysIn_stateEndValue staysIn_goto staysIn_fail staysIn_same)
qed (simp_all add: scanStep_def inValue_def [symmetric]
      stateBeginValueOrEmpty_def stateBeginString_def stateInString_def stateInStringEsc_def
      state0_def state1_def stateNeg_def stateDot0_def stateE_def stateESign_def stateE0_def
      staysIn_stateEndValue staysIn_stateBeginValue staysIn_goto staysIn_fail staysIn_same
      staysIn_expect, simp add: inValue_def)

lemma stateEndValue_space:
  "fst (stateEndValue s CHR '' '') \<noteq> scanEnd \<Longrightarrow> inValue (snd (stateEndValue s CHR '' ''))"
  by (cases "parseStack s")
    (simp_all add: stateEndValue_def stateEndTop_def isSpace_def goto_def inValue_def)

lemma readValueLoop_prefix:
  "inValue s \<Longrightarrow> readValueLoop buf s v n = Inr m \<Longrightarrow>
   readValueLoop buf' s (v @ post) n = Inr m \<and> m \<le> n + length v"
proof (induction v arbitrary: s n)
  case Nil
  from staysIn_scanStep [OF Nil(1), of "CHR '' ''"] have "fst (scanStep s CHR '' '') \<noteq> scanEnd"
    by (simp add: staysIn_def)
  with Nil(2) show ?case by (simp split: if_splits)
next
  case (Cons c v)
  obtain code s' where st: "scanStep s c = (code, s')" by (cases "scanStep s c")
  from staysIn_scanStep [OF Cons.prems(1), of c] st
  have notEnd: "code \<noteq> scanEnd"
    and stay: "code \<noteq> scanEndObject \<and> code \<noteq> scanEndArray \<and> code \<noteq> scanError \<Longrightarrow> inValue s'"
    by (simp_all add: staysIn_def)
  show ?case
  proof (cases "code = scanEndObject \<or> code = scanEndArray")
    case True
    obtain code' s'' where ev: "stateEndValue s' CHR '' '' = (code', s'')"
      by (cases "stateEndValue s' CHR '' ''")
    show ?thesis
    proof (cases "code' = scanEnd")
      case True
      with \<open>code = scanEndObject \<or> code = scanEndArray\<close> Cons.prems(2) st ev notEnd
      show ?thesis by auto
    next
      case False
      with ev stateEndValue_space [of s'] have "inValue s''" by simp
      moreover from False True Cons.prems(2) st ev notEnd
      have "readValueLoop buf s'' v (n + 1) = Inr m" by auto
      ultimately have "readValueLoop buf' s'' (v @ post) (n + 1) = Inr m \<and> m \<le> (n + 1) + length v"
        by (rule Cons.IH)
      with False True st ev notEnd show ?thesis by auto
    qed
  next
    case False
    with Cons.prems(2) st notEnd have ne: "code \<noteq> scanError" by auto
    with False stay have "inValue s'" by simp
    moreover from False ne Cons.prems(2) st notEnd
    have "readValueLoop buf s' v (n + 1) = Inr m" by auto
    ultimately have "readValueLoop buf' s' (v @ post) (n + 1) = Inr m \<and> m \<le> (n + 1) + length v"
      by (rule Cons.IH)
    with False ne st notEnd show ?thesis by auto
  qed
qed

lemma readValueLoop_errors:
  "readValueLoop buf s v n = Inl e \<Longrightarrow> e \<in> {JsonSyntaxError, JsonUnexpectedEOF, JsonEOF}"
proof (induction v arbitrary: s n)
  case Nil
  then show ?case by (auto split: if_splits)
next
  case (Cons c v)
  then show ?case
    by (cases "scanStep s c"; cases "stateEndValue (snd (scanStep s c)) CHR '' ''")
      (auto split: if_splits)
qed

lemma readValue_object:
  "readValue (CHR ''{'' # v) =
     readValueLoop (CHR ''{'' # v) \<lparr>stepFn = StBeginStringOrEmpty, parseStack = [parseObjectKey]\<rparr> v 1"
  by (simp add: readValue_def scanStep_def stateBeginValue_def isSpace_def pushParseState_def
      maxNestingDepth_def)

lemma readValue_trailing:
  assumes "readValue (CHR ''{'' # v) = Inr m"
  shows "readValue (CHR ''{'' # v @ post) = Inr m \<and> m \<le> length (CHR ''{'' # v)"
proof -
  have "inValue \<lparr>stepFn = StBeginStringOrEmpty, parseStack = [parseObjectKey]\<rparr>"
    by (simp add: inValue_def)
  from readValueLoop_prefix [OF this, of "CHR ''{'' # v" v 1 m "CHR ''{'' # v @ post" post] assms
  show ?thesis by (simp add: readValue_object)
qed

lemma Decode_trailing:
  assumes "readValue (CHR ''{'' # v) = Inr m"
  shows "Decode env (CHR ''{'' # v @ post) = Decode env (CHR ''{'' # v)"
proof -
  from readValue_trailing [OF assms, of post]
  have r: "readValue (CHR ''{'' # v @ post) = Inr m" and m: "m \<le> length (CHR ''{'' # v)"
    by simp_all
  from m have "take m (CHR ''{'' # v @ post) = take m (CHR ''{'' # v)"
    by (cases m) simp_all
  with r assms show ?thesis by (simp add: Decode_def)
qed

lemma Decode_not_invalid: "Decode env data \<noteq> Inl InvalidResponseBody"
proof (cases "readValue data")
  case (Inl e)
  with readValueLoop_errors [of data _ data 0 e] show ?thesis
    by (auto simp: Decode_def readValue_def)
next
  case (Inr n)
  then show ?thesis by (simp add: Decode_def split: sum.splits)
qed

lemma parseFund_eq:
  "parseFund env resp =
     Return (case BodyErr resp of
               Some msg \<Rightarrow> Inl (ReadError msg)
             | None \<Rightarrow>
                 if CHR ''{'' \<in> set (Body resp)
                 then Decode env (dropWhile (\<lambda>c. c \<noteq> CHR ''{'') (Body resp))
                 else Inl InvalidResponseBody)"
proof (cases "CHR ''{'' \<in> set (Body resp)")
  case True
  then have "Index (Body resp) ''{'' \<noteq> - 1" by (simp add: Index_char)
  moreover have "Slice (Body resp) (Index (Body resp) ''{'') (int (length (Body resp)))
      = Some (dropWhile (\<lambda>c. c \<noteq> CHR ''{'') (Body resp))"
    using True by (simp only: Slice_from_Index if_True)
  ultimately show ?thesis
    using True by (simp add: parseFund_def Let_def split: option.splits)
next
  case False
  then have "Index (Body resp) ''{'' = - 1" by (simp add: Index_char)
  with False show ?thesis
    by (simp add: parseFund_def Let_def split: option.splits)
qed

lemma dropWhile_to_brace:
  "CHR ''{'' \<notin> set pre \<Longrightarrow>
   dropWhile (\<lambda>c. c \<noteq> CHR ''{'') (pre @ CHR ''{'' # rest) = CHR ''{'' # rest"
  by (induction pre) auto

lemma parseFund_wrapped:
  assumes "BodyErr resp = None"
    and "Body resp = pre @ CHR ''{'' # v @ post"
    and "CHR ''{'' \<notin> set pre"
    and "readValue (CHR ''{'' # v) = Inr m"
  shows "parseFund env resp = Return (Decode env (CHR ''{'' # v))"
    and "Decode env (CHR ''{'' # v) =
              (case unmarshal env (take m (CHR ''{'' # v)) of
                 Inl msg \<Rightarrow> Inl (UnmarshalError msg)
               | Inr info \<Rightarrow> Inr info)"
proof -
  from assms(1-3) have "parseFund env resp = Return (Decode env (CHR ''{'' # v @ post))"
    by (simp add: parseFund_eq dropWhile_to_brace)
  with Decode_trailing [OF assms(4), of env post]
  show "parseFund env resp = Return (Decode env (CHR ''{'' # v))" by simp
  show "Decode env (CHR ''{'' # v) =
              (case unmarshal env (take m (CHR ''{'' # v)) of
                 Inl msg \<Rightarrow> Inl (UnmarshalError msg)
               | Inr info \<Rightarrow> Inr info)"
    using assms(4) by (simp add: Decode_def)
qed

lemma dropWhile_brace_mem:
  "CHR ''{'' \<in> set data \<Longrightarrow> CHR ''{'' \<in> set (dropWhile (\<lambda>c. c \<noteq> CHR ''{'') data)"
  by (induction data) auto

lemma readValueLoop_not_EOF: "nonSpace buf \<Longrightarrow> readValueLoop buf s v n \<noteq> Inl JsonEOF"
proof (induction v arbitrary: s n)
  case Nil
  then show ?case by simp
next
  case (Cons c v)
  then show ?case
    by (cases "scanStep s c"; cases "stateEndValue (snd (scanStep s c)) CHR '' ''")
      (auto split: if_splits)
qed

lemma readValue_brace_errors:
  assumes "CHR ''{'' \<in> set data" and "readValue data = Inl e"
  shows "e = JsonSyntaxError \<or> e = JsonUnexpectedEOF"
proof -
  from assms(1) have "nonSpace data" by (auto simp: nonSpace_def isSpace_def)
  from readValueLoop_not_EOF [OF this] assms(2) readValueLoop_errors [of data _ data 0 e]
  show ?thesis by (auto simp: readValue_def)
qed

lemma parseFund_failure:
  assumes "BodyErr resp = None" and "parseFund env resp = Return (Inl e)"
  shows "(e = InvalidResponseBody \<and> CHR ''{'' \<notin> set (Body resp))
    \<or> ((e = JsonSyntaxError \<or> e = JsonUnexpectedEOF)
        \<and> readValue (dropWhile (\<lambda>c. c \<noteq> CHR ''{'') (Body resp)) = Inl e)
    \<or> (\<exists>n msg. readValue (dropWhile (\<lambda>c. c \<noteq> CHR ''{'') (Body resp)) = Inr n
          \<and> unmarshal env (take n (dropWhile (\<lambda>c. c \<noteq> CHR ''{'') (Body resp))) = Inl msg
          \<and> e = UnmarshalError msg)"
proof (cases "CHR ''{'' \<in> set (Body resp)")
  case False
  with assms show ?thesis by (simp add: parseFund_eq)
next
  case True
  let ?data = "dropWhile (\<lambda>c. c \<noteq> CHR ''{'') (Body resp)"
  from True assms have d: "Decode env ?data = Inl e" by (simp add: parseFund_eq)
  show ?thesis
  proof (cases "readValue ?data")
    case (Inl e')
    with d have "e' = e" by (simp add: Decode_def)
    with Inl readValue_brace_errors [OF dropWhile_brace_mem [OF True], of e] show ?thesis
      by simp
  next
    case (Inr n)
    with d show ?thesis by (auto simp: Decode_def split: sum.splits)
  qed
qed

subsection \<open>The scanner accepts the objects of the grammar\<close>

text \<open>Going through a text, byte by byte.\<close>

lemma passes_Nil: "passes s [] s"
  by (simp add: passes_def)

lemma passes_append: "passes s u s1 \<Longrightarrow> passes s1 v s2 \<Longrightarrow> passes s (u @ v) s2"
  by (simp add: passes_def add.assoc)

lemma passes_step:
  "scanStep s c = (code, s') \<Longrightarrow> code \<noteq> scanEnd \<Longrightarrow> code \<noteq> scanEndObject \<Longrightarrow>
   code \<noteq> scanEndArray \<Longrightarrow> code \<noteq> scanError \<Longrightarrow> passes s [c] s'"
  by (simp add: passes_def)

lemma stateEndValue_stepFn:
  "stateEndValue (sc ps x) c = stateEndValue (sc ps y) c"
  by (cases ps)
    (simp_all add: stateEndValue_def stateEndTop_def goto_def scanFail_def popParseState_def
      Let_def split: parseState.splits)

lemma delim_cases:
  "delim c \<Longrightarrow> \<not> isDigit c \<and> c \<noteq> CHR ''.'' \<and> c \<noteq> CHR ''e'' \<and> c \<noteq> CHR ''E''"
  unfolding delim_def isDigit_def by (elim insertE emptyE; simp)

lemma ended_step:
  assumes "ended x" and "delim c"
  shows "scanStep (sc ps x) c = stateEndValue (sc ps StEndValue) c"
proof -
  from delim_cases [OF assms(2)]
  have "scanStep (sc ps x) c = stateEndValue (sc ps x) c"
    using assms(1) unfolding ended_def
    by (elim insertE emptyE; simp add: scanStep_def state0_def state1_def stateDot0_def stateE0_def)
  then show ?thesis using stateEndValue_stepFn [where ps = ps and x = x and c = c and y = StEndValue] by simp
qed

text \<open>Whitespace is skipped where a value, a key or a separator is expected.\<close>

lemma space_begin:
  assumes "beginState x" and "c \<in> {CHR '' '', CHR 0x09, CHR 0x0A, CHR 0x0D}"
  shows "scanStep (sc ps x) c = (scanSkipSpace, sc ps x)"
  using assms unfolding beginState_def
  by (elim insertE emptyE;
      simp add: scanStep_def stateBeginValue_def stateBeginValueOrEmpty_def
        stateBeginString_def stateBeginStringOrEmpty_def isSpace_def)

lemma ws_begin: "rfcWs w \<Longrightarrow> beginState x \<Longrightarrow> passes (sc ps x) w (sc ps x)"
proof (induction w)
  case Nil
  show ?case by (rule passes_Nil)
next
  case (Cons c w)
  then have "c \<in> {CHR '' '', CHR 0x09, CHR 0x0A, CHR 0x0D}" and "rfcWs w"
    by (simp_all add: rfcWs_def)
  from space_begin [OF Cons.prems(2) this(1)] have "passes (sc ps x) [c] (sc ps x)"
    by (rule passes_step) simp_all
  from passes_append [OF this Cons.IH [OF \<open>rfcWs w\<close> Cons.prems(2)]] show ?case by simp
qed

lemma space_end:
  assumes "ended x" and "c \<in> {CHR '' '', CHR 0x09, CHR 0x0A, CHR 0x0D}"
  shows "scanStep (sc (p # ps) x) c = (scanSkipSpace, sc (p # ps) StEndValue)"
proof -
  from assms(2) have "delim c" by (auto simp: delim_def)
  from ended_step [OF assms(1) this, of "p # ps"] assms(2) show ?thesis
    by (auto simp: stateEndValue_def isSpace_def goto_def)
qed

lemma ws_end:
  "rfcWs w \<Longrightarrow> ended x \<Longrightarrow> \<exists>y. ended y \<and> passes (sc (p # ps) x) w (sc (p # ps) y)"
proof (induction w arbitrary: x)
  case Nil
  then show ?case using passes_Nil by blast
next
  case (Cons c w)
  then have c: "c \<in> {CHR '' '', CHR 0x09, CHR 0x0A, CHR 0x0D}" and w: "rfcWs w"
    by (simp_all add: rfcWs_def)
  from space_end [OF Cons.prems(2) c]
  have 1: "passes (sc (p # ps) x) [c] (sc (p # ps) StEndValue)"
    by (rule passes_step) simp_all
  have "ended StEndValue" by (simp add: ended_def)
  from Cons.IH [OF w this] obtain y where "ended y"
    and "passes (sc (p # ps) StEndValue) w (sc (p # ps) y)" by blast
  with passes_append [OF 1 this(2)] show ?case by auto
qed

text \<open>Strings.\<close>

lemma chars_pass: "rfcChars cs \<Longrightarrow> passes (sc ps StInString) cs (sc ps StInString)"
proof (induction rule: rfcChars.induct)
  case none
  show ?case by (rule passes_Nil)
next
  case (plain c cs)
  then have "scanStep (sc ps StInString) c = (scanContinue, sc ps StInString)"
    by (simp add: scanStep_def stateInString_def)
  then have "passes (sc ps StInString) [c] (sc ps StInString)"
    by (rule passes_step) simp_all
  from passes_append [OF this plain.IH] show ?case by simp
next
  case (escape c cs)
  have "scanStep (sc ps StInString) CHR 0x5C = (scanContinue, sc ps StInStringEsc)"
    by (simp add: scanStep_def stateInString_def goto_def)
  then have 1: "passes (sc ps StInString) [CHR 0x5C] (sc ps StInStringEsc)"
    by (rule passes_step) simp_all
  from escape(1) have "scanStep (sc ps StInStringEsc) c = (scanContinue, sc ps StInString)"
    by (auto simp: scanStep_def stateInStringEsc_def goto_def)
  then have 2: "passes (sc ps StInStringEsc) [c] (sc ps StInString)"
    by (rule passes_step) simp_all
  from passes_append [OF 1 passes_append [OF 2 escape.IH]] show ?case by simp
next
  case (unicode h1 h2 h3 h4 cs)
  then have h: "isHex h1" "isHex h2" "isHex h3" "isHex h4" by (simp_all add: isHex_def)
  have "scanStep (sc ps StInString) CHR 0x5C = (scanContinue, sc ps StInStringEsc)"
    by (simp add: scanStep_def stateInString_def goto_def)
  then have 1: "passes (sc ps StInString) [CHR 0x5C] (sc ps StInStringEsc)"
    by (rule passes_step) simp_all
  have "scanStep (sc ps StInStringEsc) CHR ''u'' = (scanContinue, sc ps StInStringEscU)"
    by (simp add: scanStep_def stateInStringEsc_def goto_def)
  then have 2: "passes (sc ps StInStringEsc) [CHR ''u''] (sc ps StInStringEscU)"
    by (rule passes_step) simp_all
  from h(1) have "scanStep (sc ps StInStringEscU) h1 = (scanContinue, sc ps StInStringEscU1)"
    by (simp add: scanStep_def expect_def goto_def)
  then have 3: "passes (sc ps StInStringEscU) [h1] (sc ps StInStringEscU1)"
    by (rule passes_step) simp_all
  from h(2) have "scanStep (sc ps StInStringEscU1) h2 = (scanContinue, sc ps StInStringEscU12)"
    by (simp add: scanStep_def expect_def goto_def)
  then have 4: "passes (sc ps StInStringEscU1) [h2] (sc ps StInStringEscU12)"
    by (rule passes_step) simp_all
  from h(3) have "scanStep (sc ps StInStringEscU12) h3 = (scanContinue, sc ps StInStringEscU123)"
    by (simp add: scanStep_def expect_def goto_def)
  then have 5: "passes (sc ps StInStringEscU12) [h3] (sc ps StInStringEscU123)"
    by (rule passes_step) simp_all
  from h(4) have "scanStep (sc ps StInStringEscU123) h4 = (scanContinue, sc ps StInString)"
    by (simp add: scanStep_def expect_def goto_def)
  then have 6: "passes (sc ps StInStringEscU123) [h4] (sc ps StInString)"
    by (rule passes_step) simp_all
  from passes_append [OF 1 passes_append [OF 2 passes_append [OF 3 passes_append [OF 4
    passes_append [OF 5 passes_append [OF 6 unicode.IH]]]]]]
  show ?case by simp
qed

lemma quote_begin:
  assumes "beginState x"
  shows "scanStep (sc ps x) CHR 0x22 = (scanBeginLiteral, sc ps StInString)"
  using assms unfolding beginState_def
  by (elim insertE emptyE;
      simp add: scanStep_def stateBeginValue_def stateBeginValueOrEmpty_def
        stateBeginString_def stateBeginStringOrEmpty_def isSpace_def goto_def)

lemma string_pass:
  assumes "rfcString s" and "beginState x"
  shows "passes (sc ps x) s (sc ps StEndValue)"
proof -
  from assms(1) obtain cs where s: "s = CHR 0x22 # cs @ [CHR 0x22]" and cs: "rfcChars cs"
    by (auto simp: rfcString_def)
  from quote_begin [OF assms(2)] have 1: "passes (sc ps x) [CHR 0x22] (sc ps StInString)"
    by (rule passes_step) simp_all
  have "scanStep (sc ps StInString) CHR 0x22 = (scanContinue, sc ps StEndValue)"
    by (simp add: scanStep_def stateInString_def goto_def)
  then have 2: "passes (sc ps StInString) [CHR 0x22] (sc ps StEndValue)"
    by (rule passes_step) simp_all
  from passes_append [OF 1 passes_append [OF chars_pass [OF cs] 2]] show ?thesis
    by (simp add: s)
qed

text \<open>Numbers and the three names.\<close>

lemma valueState_begin: "valueState x \<Longrightarrow> beginState x"
  by (auto simp: valueState_def beginState_def)

lemma digits_loop:
  assumes "rfcDigits ds" and "x \<in> {St1, StDot0, StE0}"
  shows "passes (sc ps x) ds (sc ps x)"
  using assms(1)
proof (induction ds)
  case Nil
  show ?case by (rule passes_Nil)
next
  case (Cons c ds)
  then have c: "isDigit c" and ds: "rfcDigits ds" by (simp_all add: rfcDigits_def isDigit_def)
  from c assms(2) have "scanStep (sc ps x) c = (scanContinue, sc ps x)"
    by (elim insertE emptyE; simp add: scanStep_def state1_def stateDot0_def stateE0_def goto_def)
  then have "passes (sc ps x) [c] (sc ps x)" by (rule passes_step) simp_all
  from passes_append [OF this Cons.IH [OF ds]] show ?case by simp
qed

lemma value_step:
  assumes "valueState x" and "\<not> isSpace c" and "c \<noteq> CHR '']''"
  shows "scanStep (sc ps x) c = stateBeginValue (sc ps x) c"
  using assms unfolding valueState_def
  by (elim insertE emptyE; simp add: scanStep_def stateBeginValueOrEmpty_def)

lemma digit19:
  assumes "d \<in> set ''123456789''"
  shows "isDigit d" "d \<noteq> CHR ''0''" "\<not> isSpace d" "d \<noteq> CHR '']''" "d \<noteq> CHR ''{''"
    "d \<noteq> CHR ''[''" "d \<noteq> CHR 0x22" "d \<noteq> CHR ''-''" "d \<noteq> CHR ''t''" "d \<noteq> CHR ''f''"
    "d \<noteq> CHR ''n''"
  using assms by (auto simp: isDigit_def isSpace_def)

lemma int_pass:
  assumes "rfcInt i" and "valueState x"
  shows "\<exists>y\<in>{St0, St1}. passes (sc ps x) i (sc ps y)"
proof -
  from assms(1) consider "i = ''0''"
    | d ds where "i = d # ds" "d \<in> set ''123456789''" "rfcDigits ds"
    by (auto simp: rfcInt_def)
  then show ?thesis
  proof cases
    case 1
    have "scanStep (sc ps x) CHR ''0'' = (scanBeginLiteral, sc ps St0)"
      by (simp add: value_step [OF assms(2)] isSpace_def stateBeginValue_def goto_def)
    then have "passes (sc ps x) ''0'' (sc ps St0)" by (rule passes_step) simp_all
    with 1 show ?thesis by simp
  next
    case 2
    from digit19 [OF 2(2)] have "scanStep (sc ps x) d = (scanBeginLiteral, sc ps St1)"
      by (simp add: value_step [OF assms(2)] stateBeginValue_def goto_def)
    then have "passes (sc ps x) [d] (sc ps St1)" by (rule passes_step) simp_all
    from passes_append [OF this digits_loop [OF 2(3), of St1 ps]] 2(1) show ?thesis by simp
  qed
qed

lemma negative_pass:
  assumes "rfcInt i" and "valueState x"
  shows "\<exists>y\<in>{St0, St1}. passes (sc ps x) (CHR ''-'' # i) (sc ps y)"
proof -
  have "scanStep (sc ps x) CHR ''-'' = (scanBeginLiteral, sc ps StNeg)"
    by (simp add: value_step [OF assms(2)] isSpace_def stateBeginValue_def goto_def)
  then have m: "passes (sc ps x) ''-'' (sc ps StNeg)" by (rule passes_step) simp_all
  from assms(1) consider "i = ''0''"
    | d ds where "i = d # ds" "d \<in> set ''123456789''" "rfcDigits ds"
    by (auto simp: rfcInt_def)
  then show ?thesis
  proof cases
    case 1
    have "scanStep (sc ps StNeg) CHR ''0'' = (scanContinue, sc ps St0)"
      by (simp add: scanStep_def stateNeg_def goto_def)
    then have "passes (sc ps StNeg) ''0'' (sc ps St0)" by (rule passes_step) simp_all
    from passes_append [OF m this] 1 show ?thesis by simp
  next
    case 2
    from digit19 [OF 2(2)] have "scanStep (sc ps StNeg) d = (scanContinue, sc ps St1)"
      by (simp add: scanStep_def stateNeg_def goto_def)
    then have "passes (sc ps StNeg) [d] (sc ps St1)" by (rule passes_step) simp_all
    from passes_append [OF m passes_append [OF this digits_loop [OF 2(3), of St1 ps]]] 2(1)
    show ?thesis by simp
  qed
qed

lemma frac_pass:
  assumes "rfcFrac f" and "x \<in> {St0, St1}"
  shows "\<exists>y\<in>{St0, St1, StDot0}. passes (sc ps x) f (sc ps y)"
proof (cases "f = []")
  case True
  with assms(2) passes_Nil [of "sc ps x"] show ?thesis by auto
next
  case False
  with assms(1) obtain d ds where f: "f = CHR ''.'' # d # ds" and d: "isDigit d"
    and ds: "rfcDigits ds"
    by (cases "tl f") (auto simp: rfcFrac_def rfcDigits_def isDigit_def)
  from assms(2) have "scanStep (sc ps x) CHR ''.'' = (scanContinue, sc ps StDot)"
    by (elim insertE emptyE; simp add: scanStep_def state0_def state1_def isDigit_def goto_def)
  then have 1: "passes (sc ps x) ''.'' (sc ps StDot)" by (rule passes_step) simp_all
  from d have "scanStep (sc ps StDot) d = (scanContinue, sc ps StDot0)"
    by (simp add: scanStep_def expect_def goto_def)
  then have 2: "passes (sc ps StDot) [d] (sc ps StDot0)" by (rule passes_step) simp_all
  from passes_append [OF 1 passes_append [OF 2 digits_loop [OF ds, of StDot0 ps]]] f
  show ?thesis by simp
qed

lemma exp_pass:
  assumes "rfcExp e" and "x \<in> {St0, St1, StDot0}"
  shows "\<exists>y. ended y \<and> passes (sc ps x) e (sc ps y)"
proof (cases "e = []")
  case True
  with assms(2) passes_Nil [of "sc ps x"] show ?thesis by (auto simp: ended_def)
next
  case False
  with assms(1) obtain c sg d ds where e: "e = c # sg @ d # ds"
    and c: "c \<in> {CHR ''e'', CHR ''E''}" and sg: "sg \<in> {[], ''+'', ''-''}"
    and d: "isDigit d" and ds: "rfcDigits ds"
  proof -
    from False assms(1) obtain c sg ds' where "e = c # sg @ ds'" "c \<in> {CHR ''e'', CHR ''E''}"
      "sg \<in> {[], ''+'', ''-''}" "ds' \<noteq> []" "rfcDigits ds'"
      by (auto simp: rfcExp_def)
    then show ?thesis
      using that [of c sg "hd ds'" "tl ds'"] by (cases ds') (auto simp: rfcDigits_def isDigit_def)
  qed
  from c assms(2) have "scanStep (sc ps x) c = (scanContinue, sc ps StE)"
    by (elim insertE emptyE;
        simp add: scanStep_def state0_def state1_def stateDot0_def isDigit_def goto_def)
  then have 1: "passes (sc ps x) [c] (sc ps StE)" by (rule passes_step) simp_all
  have 2: "passes (sc ps StE) (sg @ [d]) (sc ps StE0)"
  proof (cases "sg = []")
    case True
    from d have "d \<noteq> CHR ''+''" "d \<noteq> CHR ''-''" by (auto simp: isDigit_def)
    with d have "scanStep (sc ps StE) d = (scanContinue, sc ps StE0)"
      by (simp add: scanStep_def stateE_def stateESign_def goto_def)
    then have "passes (sc ps StE) [d] (sc ps StE0)" by (rule passes_step) simp_all
    with True show ?thesis by simp
  next
    case False
    with sg obtain g where g: "sg = [g]" "g = CHR ''+'' \<or> g = CHR ''-''" by auto
    then have "scanStep (sc ps StE) g = (scanContinue, sc ps StESign)"
      by (auto simp: scanStep_def stateE_def goto_def)
    then have a: "passes (sc ps StE) [g] (sc ps StESign)" by (rule passes_step) simp_all
    from d have "scanStep (sc ps StESign) d = (scanContinue, sc ps StE0)"
      by (simp add: scanStep_def stateESign_def goto_def)
    then have "passes (sc ps StESign) [d] (sc ps StE0)" by (rule passes_step) simp_all
    from passes_append [OF a this] g show ?thesis by simp
  qed
  from passes_append [OF 1 passes_append [OF 2 digits_loop [OF ds, of StE0 ps]]] e
  show ?thesis by (auto simp: ended_def)
qed

lemma number_pass:
  assumes "rfcNumber s" and "valueState x"
  shows "\<exists>y. ended y \<and> passes (sc ps x) s (sc ps y)"
proof -
  from assms(1) obtain m i f e where s: "s = m @ i @ f @ e" and m: "m \<in> {[], ''-''}"
    and i: "rfcInt i" and f: "rfcFrac f" and e: "rfcExp e"
    by (auto simp: rfcNumber_def)
  have "\<exists>y1\<in>{St0, St1}. passes (sc ps x) (m @ i) (sc ps y1)"
  proof (cases "m = []")
    case True
    with int_pass [OF i assms(2), of ps] show ?thesis by simp
  next
    case False
    with m have "m = ''-''" by simp
    with negative_pass [OF i assms(2), of ps] show ?thesis by simp
  qed
  then obtain y1 where y1: "y1 \<in> {St0, St1}" and 1: "passes (sc ps x) (m @ i) (sc ps y1)"
    by blast
  from frac_pass [OF f y1, of ps]
  obtain y2 where y2: "y2 \<in> {St0, St1, StDot0}" and 2: "passes (sc ps y1) f (sc ps y2)"
    by auto
  from exp_pass [OF e y2, of ps]
  obtain y3 where y3: "ended y3" and 3: "passes (sc ps y2) e (sc ps y3)"
    by auto
  from passes_append [OF 1 passes_append [OF 2 3]] y3 s show ?thesis by auto
qed

lemma names_pass:
  assumes "valueState x"
  shows "passes (sc ps x) ''true'' (sc ps StEndValue)"
    and "passes (sc ps x) ''false'' (sc ps StEndValue)"
    and "passes (sc ps x) ''null'' (sc ps StEndValue)"
proof -
  have b: "scanStep (sc ps x) CHR ''t'' = (scanBeginLiteral, sc ps StT)"
    "scanStep (sc ps x) CHR ''f'' = (scanBeginLiteral, sc ps StF)"
    "scanStep (sc ps x) CHR ''n'' = (scanBeginLiteral, sc ps StN)"
    by (simp_all add: value_step [OF assms] isSpace_def stateBeginValue_def goto_def)
  show "passes (sc ps x) ''true'' (sc ps StEndValue)"
    unfolding passes_def by (simp add: b) (simp add: scanStep_def expect_def goto_def)
  show "passes (sc ps x) ''false'' (sc ps StEndValue)"
    unfolding passes_def by (simp add: b) (simp add: scanStep_def expect_def goto_def)
  show "passes (sc ps x) ''null'' (sc ps StEndValue)"
    unfolding passes_def by (simp add: b) (simp add: scanStep_def expect_def goto_def)
qed

text \<open>Arrays and objects.\<close>

lemma passes_close:
  assumes "scanStep s c = (code, sc (p # ps) StEndValue)"
    and "code = scanEndObject \<or> code = scanEndArray"
  shows "passes s [c] (sc (p # ps) StEndValue)"
  using assms unfolding passes_def
  by (auto simp: stateEndValue_def isSpace_def goto_def)

lemma open_array:
  assumes "valueState x" and "Suc (length ps) \<le> maxNestingDepth"
  shows "passes (sc ps x) ''['' (sc (parseArrayValue # ps) StBeginValueOrEmpty)"
proof -
  from assms(2) have "scanStep (sc ps x) CHR ''['' =
      (scanBeginArray, sc (parseArrayValue # ps) StBeginValueOrEmpty)"
    by (simp add: value_step [OF assms(1)] isSpace_def stateBeginValue_def pushParseState_def)
  then show ?thesis by (rule passes_step) simp_all
qed

lemma open_object:
  assumes "valueState x" and "Suc (length ps) \<le> maxNestingDepth"
  shows "passes (sc ps x) ''{'' (sc (parseObjectKey # ps) StBeginStringOrEmpty)"
proof -
  from assms(2) have "scanStep (sc ps x) CHR ''{'' =
      (scanBeginObject, sc (parseObjectKey # ps) StBeginStringOrEmpty)"
    by (simp add: value_step [OF assms(1)] isSpace_def stateBeginValue_def pushParseState_def)
  then show ?thesis by (rule passes_step) simp_all
qed

lemma close_array_step:
  assumes "ended y"
  shows "scanStep (sc (parseArrayValue # ps) y) CHR '']'' =
     (scanEndArray, sc ps (if ps = [] then StEndTop else StEndValue))"
  by (simp add: ended_step [OF assms] delim_def stateEndValue_def isSpace_def popParseState_def)

lemma close_empty_array_step:
  "scanStep (sc (parseArrayValue # ps) StBeginValueOrEmpty) CHR '']'' =
     (scanEndArray, sc ps (if ps = [] then StEndTop else StEndValue))"
  by (simp add: scanStep_def stateBeginValueOrEmpty_def stateEndValue_def isSpace_def
      popParseState_def)

lemma close_object_step:
  assumes "ended y"
  shows "scanStep (sc (parseObjectValue # ps) y) CHR ''}'' =
     (scanEndObject, sc ps (if ps = [] then StEndTop else StEndValue))"
  by (simp add: ended_step [OF assms] delim_def stateEndValue_def isSpace_def popParseState_def)

lemma close_empty_object_step:
  "scanStep (sc (parseObjectKey # ps) StBeginStringOrEmpty) CHR ''}'' =
     (scanEndObject, sc ps (if ps = [] then StEndTop else StEndValue))"
  by (simp add: scanStep_def stateBeginStringOrEmpty_def stateEndValue_def isSpace_def
      popParseState_def)

lemma comma_array:
  assumes "ended y"
  shows "passes (sc (parseArrayValue # ps) y) '','' (sc (parseArrayValue # ps) StBeginValue)"
proof -
  have "scanStep (sc (parseArrayValue # ps) y) CHR '','' =
      (scanArrayValue, sc (parseArrayValue # ps) StBeginValue)"
    by (simp add: ended_step [OF assms] delim_def stateEndValue_def isSpace_def goto_def)
  then show ?thesis by (rule passes_step) simp_all
qed

lemma comma_object:
  assumes "ended y"
  shows "passes (sc (parseObjectValue # ps) y) '','' (sc (parseObjectKey # ps) StBeginString)"
proof -
  have "scanStep (sc (parseObjectValue # ps) y) CHR '','' =
      (scanObjectValue, sc (parseObjectKey # ps) StBeginString)"
    by (simp add: ended_step [OF assms] delim_def stateEndValue_def isSpace_def goto_def)
  then show ?thesis by (rule passes_step) simp_all
qed

lemma colon_object:
  assumes "ended y"
  shows "passes (sc (parseObjectKey # ps) y) '':'' (sc (parseObjectValue # ps) StBeginValue)"
proof -
  have "scanStep (sc (parseObjectKey # ps) y) CHR '':'' =
      (scanObjectKey, sc (parseObjectValue # ps) StBeginValue)"
    by (simp add: ended_step [OF assms] delim_def stateEndValue_def isSpace_def goto_def)
  then show ?thesis by (rule passes_step) simp_all
qed

text \<open>
  The scanner goes through every value of the grammar that is nested no deeper than it
  allows, and is then at the end of a value, with the stack it had.
\<close>

lemma rfc_pass:
  "rfcValue d v \<Longrightarrow>
     \<forall>p ps x. valueState x \<longrightarrow> Suc (length ps) + d \<le> maxNestingDepth \<longrightarrow>
       (\<exists>y. ended y \<and> passes (sc (p # ps) x) v (sc (p # ps) y))"
  "rfcElements d es \<Longrightarrow>
     \<forall>ps x. valueState x \<longrightarrow> Suc (length ps) + d \<le> maxNestingDepth \<longrightarrow>
       (\<exists>y. ended y \<and> passes (sc (parseArrayValue # ps) x) es (sc (parseArrayValue # ps) y))"
  "rfcMembers d ms \<Longrightarrow>
     \<forall>ps x. x \<in> {StBeginString, StBeginStringOrEmpty} \<longrightarrow>
       Suc (length ps) + d \<le> maxNestingDepth \<longrightarrow>
       (\<exists>y. ended y \<and> passes (sc (parseObjectKey # ps) x) ms (sc (parseObjectValue # ps) y))"
proof (induction rule: rfcValue_rfcElements_rfcMembers.inducts)
  case (true d)
  have "ended StEndValue" by (simp add: ended_def)
  with names_pass(1) show ?case by blast
next
  case (false d)
  have "ended StEndValue" by (simp add: ended_def)
  with names_pass(2) show ?case by blast
next
  case (null d)
  have "ended StEndValue" by (simp add: ended_def)
  with names_pass(3) show ?case by blast
next
  case (number s d)
  with number_pass show ?case by blast
next
  case (string s d)
  have "ended StEndValue" by (simp add: ended_def)
  with string_pass [OF string valueState_begin] show ?case by blast
next
  case (emptyArray w d)
  show ?case
  proof (intro allI impI)
    fix p :: parseState and ps :: "parseState list" and x
    assume x: "valueState x" and n: "Suc (length ps) + Suc d \<le> maxNestingDepth"
    from n have "Suc (length (p # ps)) \<le> maxNestingDepth" by simp
    note 1 = open_array [OF x this]
    have "beginState StBeginValueOrEmpty" by (simp add: beginState_def)
    note 2 = ws_begin [OF emptyArray this, of "parseArrayValue # p # ps"]
    from close_empty_array_step [of "p # ps"]
    have 3: "passes (sc (parseArrayValue # p # ps) StBeginValueOrEmpty) '']''
        (sc (p # ps) StEndValue)"
      by (intro passes_close [where code = scanEndArray]) simp_all
    from passes_append [OF 1 passes_append [OF 2 3]]
    have "passes (sc (p # ps) x) (CHR ''['' # w @ '']'') (sc (p # ps) StEndValue)" by simp
    moreover have "ended StEndValue" by (simp add: ended_def)
    ultimately show "\<exists>y. ended y \<and> passes (sc (p # ps) x) (CHR ''['' # w @ '']'') (sc (p # ps) y)"
      by blast
  qed
next
  case (array d es)
  show ?case
  proof (intro allI impI)
    fix p :: parseState and ps :: "parseState list" and x
    assume x: "valueState x" and n: "Suc (length ps) + Suc d \<le> maxNestingDepth"
    from n have "Suc (length (p # ps)) \<le> maxNestingDepth" by simp
    note 1 = open_array [OF x this]
    have "valueState StBeginValueOrEmpty" by (simp add: valueState_def)
    moreover from n have "Suc (length (p # ps)) + d \<le> maxNestingDepth" by simp
    ultimately obtain y where y: "ended y"
      and 2: "passes (sc (parseArrayValue # p # ps) StBeginValueOrEmpty) es
          (sc (parseArrayValue # p # ps) y)"
      using array.IH by blast
    from close_array_step [OF y, of "p # ps"]
    have 3: "passes (sc (parseArrayValue # p # ps) y) '']'' (sc (p # ps) StEndValue)"
      by (intro passes_close [where code = scanEndArray]) simp_all
    from passes_append [OF 1 passes_append [OF 2 3]]
    have "passes (sc (p # ps) x) (CHR ''['' # es @ '']'') (sc (p # ps) StEndValue)" by simp
    moreover have "ended StEndValue" by (simp add: ended_def)
    ultimately show "\<exists>y. ended y \<and> passes (sc (p # ps) x) (CHR ''['' # es @ '']'') (sc (p # ps) y)"
      by blast
  qed
next
  case (emptyObject w d)
  show ?case
  proof (intro allI impI)
    fix p :: parseState and ps :: "parseState list" and x
    assume x: "valueState x" and n: "Suc (length ps) + Suc d \<le> maxNestingDepth"
    from n have "Suc (length (p # ps)) \<le> maxNestingDepth" by simp
    note 1 = open_object [OF x this]
    have "beginState StBeginStringOrEmpty" by (simp add: beginState_def)
    note 2 = ws_begin [OF emptyObject this, of "parseObjectKey # p # ps"]
    from close_empty_object_step [of "p # ps"]
    have 3: "passes (sc (parseObjectKey # p # ps) StBeginStringOrEmpty) ''}''
        (sc (p # ps) StEndValue)"
      by (intro passes_close [where code = scanEndObject]) simp_all
    from passes_append [OF 1 passes_append [OF 2 3]]
    have "passes (sc (p # ps) x) (CHR ''{'' # w @ ''}'') (sc (p # ps) StEndValue)" by simp
    moreover have "ended StEndValue" by (simp add: ended_def)
    ultimately show "\<exists>y. ended y \<and> passes (sc (p # ps) x) (CHR ''{'' # w @ ''}'') (sc (p # ps) y)"
      by blast
  qed
next
  case (object d ms)
  show ?case
  proof (intro allI impI)
    fix p :: parseState and ps :: "parseState list" and x
    assume x: "valueState x" and n: "Suc (length ps) + Suc d \<le> maxNestingDepth"
    from n have "Suc (length (p # ps)) \<le> maxNestingDepth" by simp
    note 1 = open_object [OF x this]
    from n have "Suc (length (p # ps)) + d \<le> maxNestingDepth" by simp
    then obtain y where y: "ended y"
      and 2: "passes (sc (parseObjectKey # p # ps) StBeginStringOrEmpty) ms
          (sc (parseObjectValue # p # ps) y)"
      using object.IH by blast
    from close_object_step [OF y, of "p # ps"]
    have 3: "passes (sc (parseObjectValue # p # ps) y) ''}'' (sc (p # ps) StEndValue)"
      by (intro passes_close [where code = scanEndObject]) simp_all
    from passes_append [OF 1 passes_append [OF 2 3]]
    have "passes (sc (p # ps) x) (CHR ''{'' # ms @ ''}'') (sc (p # ps) StEndValue)" by simp
    moreover have "ended StEndValue" by (simp add: ended_def)
    ultimately show "\<exists>y. ended y \<and> passes (sc (p # ps) x) (CHR ''{'' # ms @ ''}'') (sc (p # ps) y)"
      by blast
  qed
next
  case (element w1 d v w2)
  show ?case
  proof (intro allI impI)
    fix ps :: "parseState list" and x
    assume x: "valueState x" and n: "Suc (length ps) + d \<le> maxNestingDepth"
    let ?ps = "parseArrayValue # ps"
    note 1 = ws_begin [OF element(1) valueState_begin [OF x], of ?ps]
    from element.IH x n obtain y where y: "ended y" and 2: "passes (sc ?ps x) v (sc ?ps y)"
      by blast
    from ws_end [OF element(3) y, of parseArrayValue ps] obtain y' where y': "ended y'"
      and 3: "passes (sc ?ps y) w2 (sc ?ps y')" by blast
    from passes_append [OF 1 passes_append [OF 2 3]] y'
    show "\<exists>y. ended y \<and> passes (sc ?ps x) (w1 @ v @ w2) (sc ?ps y)" by blast
  qed
next
  case (elements w1 d v w2 es)
  show ?case
  proof (intro allI impI)
    fix ps :: "parseState list" and x
    assume x: "valueState x" and n: "Suc (length ps) + d \<le> maxNestingDepth"
    let ?ps = "parseArrayValue # ps"
    note 1 = ws_begin [OF elements(1) valueState_begin [OF x], of ?ps]
    from elements.IH(1) x n obtain y where y: "ended y" and 2: "passes (sc ?ps x) v (sc ?ps y)"
      by blast
    from ws_end [OF elements(3) y, of parseArrayValue ps] obtain y' where y': "ended y'"
      and 3: "passes (sc ?ps y) w2 (sc ?ps y')" by blast
    note 4 = comma_array [OF y', of ps]
    have "valueState StBeginValue" by (simp add: valueState_def)
    with elements.IH(2) n obtain z where z: "ended z"
      and 5: "passes (sc ?ps StBeginValue) es (sc ?ps z)" by blast
    from passes_append [OF 1 passes_append [OF 2 passes_append [OF 3 passes_append [OF 4 5]]]]
    have "passes (sc ?ps x) (w1 @ v @ w2 @ CHR '','' # es) (sc ?ps z)" by simp
    with z show "\<exists>y. ended y \<and> passes (sc ?ps x) (w1 @ v @ w2 @ CHR '','' # es) (sc ?ps y)"
      by blast
  qed
next
  case (member w1 k w2 w3 d v w4)
  show ?case
  proof (intro allI impI)
    fix ps :: "parseState list" and x
    assume x: "x \<in> {StBeginString, StBeginStringOrEmpty}"
      and n: "Suc (length ps) + d \<le> maxNestingDepth"
    let ?k = "parseObjectKey # ps" and ?v = "parseObjectValue # ps"
    from x have b: "beginState x" by (auto simp: beginState_def)
    note 1 = ws_begin [OF member(1) b, of ?k]
    note 2 = string_pass [OF member(2) b, of ?k]
    have "ended StEndValue" by (simp add: ended_def)
    from ws_end [OF member(3) this, of parseObjectKey ps] obtain y where y: "ended y"
      and 3: "passes (sc ?k StEndValue) w2 (sc ?k y)" by blast
    note 4 = colon_object [OF y, of ps]
    have "beginState StBeginValue" by (simp add: beginState_def)
    note 5 = ws_begin [OF member(4) this, of ?v]
    have "valueState StBeginValue" by (simp add: valueState_def)
    with member.IH n obtain z where z: "ended z"
      and 6: "passes (sc ?v StBeginValue) v (sc ?v z)" by blast
    from ws_end [OF member(6) z, of parseObjectValue ps] obtain z' where z': "ended z'"
      and 7: "passes (sc ?v z) w4 (sc ?v z')" by blast
    from passes_append [OF 1 passes_append [OF 2 passes_append [OF 3 passes_append [OF 4
      passes_append [OF 5 passes_append [OF 6 7]]]]]]
    have "passes (sc ?k x) (w1 @ k @ w2 @ CHR '':'' # w3 @ v @ w4) (sc ?v z')" by simp
    with z' show "\<exists>y. ended y \<and> passes (sc ?k x) (w1 @ k @ w2 @ CHR '':'' # w3 @ v @ w4) (sc ?v y)"
      by blast
  qed
next
  case (members w1 k w2 w3 d v w4 ms)
  show ?case
  proof (intro allI impI)
    fix ps :: "parseState list" and x
    assume x: "x \<in> {StBeginString, StBeginStringOrEmpty}"
      and n: "Suc (length ps) + d \<le> maxNestingDepth"
    let ?k = "parseObjectKey # ps" and ?v = "parseObjectValue # ps"
    from x have b: "beginState x" by (auto simp: beginState_def)
    note 1 = ws_begin [OF members(1) b, of ?k]
    note 2 = string_pass [OF members(2) b, of ?k]
    have "ended StEndValue" by (simp add: ended_def)
    from ws_end [OF members(3) this, of parseObjectKey ps] obtain y where y: "ended y"
      and 3: "passes (sc ?k StEndValue) w2 (sc ?k y)" by blast
    note 4 = colon_object [OF y, of ps]
    have "beginState StBeginValue" by (simp add: beginState_def)
    note 5 = ws_begin [OF members(4) this, of ?v]
    have "valueState StBeginValue" by (simp add: valueState_def)
    with members.IH(1) n obtain z where z: "ended z"
      and 6: "passes (sc ?v StBeginValue) v (sc ?v z)" by blast
    from ws_end [OF members(6) z, of parseObjectValue ps] obtain z' where z': "ended z'"
      and 7: "passes (sc ?v z) w4 (sc ?v z')" by blast
    note 8 = comma_object [OF z', of ps]
    from members.IH(2) n obtain u where u: "ended u"
      and 9: "passes (sc ?k StBeginString) ms (sc ?v u)" by blast
    from passes_append [OF 1 passes_append [OF 2 passes_append [OF 3 passes_append [OF 4
      passes_append [OF 5 passes_append [OF 6 passes_append [OF 7 passes_append [OF 8 9]]]]]]]]
    have "passes (sc ?k x) (w1 @ k @ w2 @ CHR '':'' # w3 @ v @ w4 @ CHR '','' # ms) (sc ?v u)"
      by simp
    with u show "\<exists>y. ended y
        \<and> passes (sc ?k x) (w1 @ k @ w2 @ CHR '':'' # w3 @ v @ w4 @ CHR '','' # ms) (sc ?v y)"
      by blast
  qed
qed

text \<open>
  So \<open>readValue\<close> takes an object of the grammar, and nothing after it, for the first
  value of any input that begins with it.
\<close>

lemma top_close:
  assumes "scanStep s c = (code, sc [] StEndTop)"
    and "code = scanEndObject \<or> code = scanEndArray"
  shows "readValueLoop buf s (c # rest) n = Inr (n + 1)"
  using assms by (auto simp: stateEndValue_def stateEndTop_def)

lemma readValue_rfcObject:
  assumes "rfcObject obj"
  shows "readValue (obj @ post) = Inr (length obj)"
proof -
  from assms obtain d body where d: "Suc d \<le> maxNestingDepth"
    and obj: "obj = CHR ''{'' # body @ ''}''" and body: "rfcWs body \<or> rfcMembers d body"
    by (auto simp: rfcObject_def)
  let ?buf = "CHR ''{'' # body @ CHR ''}'' # post"
  let ?s = "sc [parseObjectKey] StBeginStringOrEmpty"
  have start: "readValue ?buf = readValueLoop ?buf ?s (body @ CHR ''}'' # post) 1"
    by (rule readValue_object)
  from body have "\<exists>s'. passes ?s body s'
      \<and> (\<exists>code. scanStep s' CHR ''}'' = (code, sc [] StEndTop)
            \<and> (code = scanEndObject \<or> code = scanEndArray))"
  proof
    assume "rfcWs body"
    moreover have "beginState StBeginStringOrEmpty" by (simp add: beginState_def)
    ultimately have "passes ?s body ?s" by (rule ws_begin)
    with close_empty_object_step [of "[]"] show ?thesis by auto
  next
    assume "rfcMembers d body"
    from rfc_pass(3) [OF this]
    have "StBeginStringOrEmpty \<in> {StBeginString, StBeginStringOrEmpty} \<longrightarrow>
       Suc (length ([] :: parseState list)) + d \<le> maxNestingDepth \<longrightarrow>
       (\<exists>y. ended y \<and> passes ?s body (sc [parseObjectValue] y))"
      by blast
    with d obtain y where "ended y" and "passes ?s body (sc [parseObjectValue] y)"
      by auto
    with close_object_step [of y "[]"] show ?thesis by auto
  qed
  then obtain s' code where p: "passes ?s body s'"
    and c: "scanStep s' CHR ''}'' = (code, sc [] StEndTop)"
      "code = scanEndObject \<or> code = scanEndArray"
    by blast
  from p have "readValueLoop ?buf ?s (body @ CHR ''}'' # post) 1
      = readValueLoop ?buf s' (CHR ''}'' # post) (1 + length body)"
    by (simp add: passes_def)
  also from top_close [OF c] have "\<dots> = Inr (1 + length body + 1)" .
  finally have "readValue ?buf = Inr (1 + length body + 1)" by (simp only: start)
  then show ?thesis by (simp add: obj)
qed

lemma Decode_rfcObject:
  assumes "rfcObject obj"
  shows "Decode env (obj @ post) =
     (case unmarshal env obj of Inl msg \<Rightarrow> Inl (UnmarshalError msg) | Inr info \<Rightarrow> Inr info)"
  by (simp add: Decode_def readValue_rfcObject [OF assms])

lemma parseFund_rfcObject:
  assumes "BodyErr resp = None" and "Body resp = pre @ obj @ post" and "CHR ''{'' \<notin> set pre"
    and "rfcObject obj"
  shows "parseFund env resp =
     Return (case unmarshal env obj of Inl msg \<Rightarrow> Inl (UnmarshalError msg) | Inr info \<Rightarrow> Inr info)"
proof -
  from assms(4) obtain rest where "obj = CHR ''{'' # rest" by (auto simp: rfcObject_def)
  with assms(1-3) have "parseFund env resp = Return (Decode env (obj @ post))"
    by (simp add: parseFund_eq dropWhile_to_brace)
  with Decode_rfcObject [OF assms(4)] show ?thesis by simp
qed

text \<open>The sample texts are objects of the grammar.\<close>

lemma rfcString_plain:
  assumes "\<forall>c\<in>set cs. 0x20 \<le> (of_char c :: nat) \<and> c \<noteq> CHR 0x22 \<and> c \<noteq> CHR 0x5C"
  shows "rfcString (CHR 0x22 # cs @ [CHR 0x22])"
proof -
  from assms have "rfcChars cs"
    by (induction cs) (auto intro: rfcChars.intros)
  then show ?thesis by (auto simp: rfcString_def)
qed

lemma rfcNumber_int: "rfcInt i \<Longrightarrow> rfcNumber i" "rfcInt i \<Longrightarrow> rfcNumber (CHR ''-'' # i)"
proof -
  assume i: "rfcInt i"
  have "i = [] @ i @ [] @ []" by simp
  with i show "rfcNumber i" unfolding rfcNumber_def rfcFrac_def rfcExp_def by blast
  have "CHR ''-'' # i = ''-'' @ i @ [] @ []" by simp
  with i show "rfcNumber (CHR ''-'' # i)" unfolding rfcNumber_def rfcFrac_def rfcExp_def by blast
qed

lemma rfcMembers_one:
  "rfcString k \<Longrightarrow> rfcValue d v \<Longrightarrow> rfcMembers d (k @ CHR '':'' # v)"
  using rfcValue_rfcElements_rfcMembers.member [of "[]" k "[]" "[]" d v "[]"]
  by (simp add: rfcWs_def)

lemma rfcMembers_more:
  "rfcString k \<Longrightarrow> rfcValue d v \<Longrightarrow> rfcMembers d ms \<Longrightarrow>
   rfcMembers d (k @ CHR '':'' # v @ CHR '','' # ms)"
  using rfcValue_rfcElements_rfcMembers.members [of "[]" k "[]" "[]" d v "[]" ms]
  by (simp add: rfcWs_def)

lemma errorJson_rfcObject: "rfcObject errorJson"
proof -
  have k: \<open>rfcString ''"ErrCode"''\<close> \<open>rfcString ''"ErrMsg"''\<close> \<open>rfcString ''"PageSize"''\<close>
    \<open>rfcString ''"PageIndex"''\<close> \<open>rfcString ''"bad"''\<close>
    using rfcString_plain [of "''ErrCode''"] rfcString_plain [of "''ErrMsg''"]
      rfcString_plain [of "''PageSize''"] rfcString_plain [of "''PageIndex''"]
      rfcString_plain [of "''bad''"]
    by simp_all
  have n: "rfcNumber ''-1''" "rfcNumber ''20''" "rfcNumber ''1''"
    by (rule rfcNumber_int, simp add: rfcInt_def rfcDigits_def)+
  have 4: \<open>rfcMembers 0 (''"PageIndex"'' @ CHR '':'' # ''1'')\<close>
    by (intro rfcMembers_one k rfcValue_rfcElements_rfcMembers.number n)
  have 3: \<open>rfcMembers 0 (''"PageSize"'' @ CHR '':'' # ''20'' @ CHR '','' # ''"PageIndex"'' @ CHR '':'' # ''1'')\<close>
    by (intro rfcMembers_more k rfcValue_rfcElements_rfcMembers.number n 4)
  have 2: \<open>rfcMembers 0 (''"ErrMsg"'' @ CHR '':'' # ''"bad"'' @ CHR '','' #
      ''"PageSize"'' @ CHR '':'' # ''20'' @ CHR '','' # ''"PageIndex"'' @ CHR '':'' # ''1'')\<close>
    by (intro rfcMembers_more k rfcValue_rfcElements_rfcMembers.string 3)
  have 1: \<open>rfcMembers 0 (''"ErrCode"'' @ CHR '':'' # ''-1'' @ CHR '','' #
      ''"ErrMsg"'' @ CHR '':'' # ''"bad"'' @ CHR '','' #
      ''"PageSize"'' @ CHR '':'' # ''20'' @ CHR '','' # ''"PageIndex"'' @ CHR '':'' # ''1'')\<close>
    by (intro rfcMembers_more k rfcValue_rfcElements_rfcMembers.number n 2)
  then have m: \<open>rfcMembers 0 ''"ErrCode":-1,"ErrMsg":"bad","PageSize":20,"PageIndex":1''\<close>
    by simp
  show ?thesis unfolding rfcObject_def
  proof (intro exI conjI)
    show "Suc 0 \<le> maxNestingDepth" by (simp add: maxNestingDepth_def)
    show \<open>errorJson = CHR ''{'' # ''"ErrCode":-1,"ErrMsg":"bad","PageSize":20,"PageIndex":1'' @ ''}''\<close>
      by (simp add: errorJson_def)
    from m show \<open>rfcWs ''"ErrCode":-1,"ErrMsg":"bad","PageSize":20,"PageIndex":1''
        \<or> rfcMembers 0 ''"ErrCode":-1,"ErrMsg":"bad","PageSize":20,"PageIndex":1''\<close>
      by (rule disjI2)
  qed
qed

lemma rfcElements_one: "rfcValue d v \<Longrightarrow> rfcElements d v"
  using rfcValue_rfcElements_rfcMembers.element [of "[]" d v "[]"] by (simp add: rfcWs_def)

lemma rfcValue_object: "rfcMembers d ms \<Longrightarrow> rfcValue (Suc d) (CHR ''{'' # ms @ ''}'')"
  by (rule rfcValue_rfcElements_rfcMembers.object)

lemma historyJson_rfcObject: "rfcObject historyJson"
proof -
  note str = rfcValue_rfcElements_rfcMembers.string
  note num = rfcValue_rfcElements_rfcMembers.number
  have k: \<open>rfcString ''"ErrCode"''\<close> \<open>rfcString ''"ErrMsg"''\<close> \<open>rfcString ''"TotalCount"''\<close>
    \<open>rfcString ''"Data"''\<close> \<open>rfcString ''"LSJZList"''\<close> \<open>rfcString ''"FSRQ"''\<close>
    \<open>rfcString ''"DWJZ"''\<close> \<open>rfcString ''"LJJZ"''\<close> \<open>rfcString ''"JZZZL"''\<close>
    \<open>rfcString ''""''\<close> \<open>rfcString ''"2024-01-02"''\<close> \<open>rfcString ''"1.234"''\<close>
    \<open>rfcString ''"2.345"''\<close> \<open>rfcString ''"0.12"''\<close>
    using rfcString_plain [of "''ErrCode''"] rfcString_plain [of "''ErrMsg''"]
      rfcString_plain [of "''TotalCount''"] rfcString_plain [of "''Data''"]
      rfcString_plain [of "''LSJZList''"] rfcString_plain [of "''FSRQ''"]
      rfcString_plain [of "''DWJZ''"] rfcString_plain [of "''LJJZ''"]
      rfcString_plain [of "''JZZZL''"] rfcString_plain [of "[]"]
      rfcString_plain [of "''2024-01-02''"] rfcString_plain [of "''1.234''"]
      rfcString_plain [of "''2.345''"] rfcString_plain [of "''0.12''"]
    by simp_all
  have n: "rfcNumber ''0''" "rfcNumber ''1''"
    by (rule rfcNumber_int, simp add: rfcInt_def rfcDigits_def)+
  have r: \<open>rfcMembers 0 (''"FSRQ"'' @ CHR '':'' # ''"2024-01-02"'' @ CHR '','' #
      ''"DWJZ"'' @ CHR '':'' # ''"1.234"'' @ CHR '','' #
      ''"LJJZ"'' @ CHR '':'' # ''"2.345"'' @ CHR '','' #
      ''"JZZZL"'' @ CHR '':'' # ''"0.12"'')\<close>
    by (intro rfcMembers_more rfcMembers_one k str)
  from rfcElements_one [OF rfcValue_object [OF r]]
  have e: \<open>rfcElements (Suc 0)
      ''{"FSRQ":"2024-01-02","DWJZ":"1.234","LJJZ":"2.345","JZZZL":"0.12"}''\<close>
    by simp
  from rfcValue_rfcElements_rfcMembers.array [OF e]
  have a: \<open>rfcValue (Suc (Suc 0))
      ''[{"FSRQ":"2024-01-02","DWJZ":"1.234","LJJZ":"2.345","JZZZL":"0.12"}]''\<close>
    by simp
  from rfcValue_object [OF rfcMembers_one [OF k(5) a]]
  have d: \<open>rfcValue 3
      ''{"LSJZList":[{"FSRQ":"2024-01-02","DWJZ":"1.234","LJJZ":"2.345","JZZZL":"0.12"}]}''\<close>
    by (simp add: numeral_3_eq_3)
  have \<open>rfcMembers 3 (''"ErrCode"'' @ CHR '':'' # ''0'' @ CHR '','' #
      ''"ErrMsg"'' @ CHR '':'' # ''""'' @ CHR '','' #
      ''"TotalCount"'' @ CHR '':'' # ''1'' @ CHR '','' #
      ''"Data"'' @ CHR '':'' #
      ''{"LSJZList":[{"FSRQ":"2024-01-02","DWJZ":"1.234","LJJZ":"2.345","JZZZL":"0.12"}]}'')\<close>
    by (intro rfcMembers_more rfcMembers_one k str num n d)
  then have m: \<open>rfcMembers 3 (tl (butlast historyJson))\<close>
    by (simp add: historyJson_def)
  show ?thesis unfolding rfcObject_def
  proof (intro exI conjI)
    show "Suc 3 \<le> maxNestingDepth" by (simp add: maxNestingDepth_def)
    show "historyJson = CHR ''{'' # tl (butlast historyJson) @ ''}''"
      by (simp add: historyJson_def)
    from m show "rfcWs (tl (butlast historyJson)) \<or> rfcMembers 3 (tl (butlast historyJson))"
      by (rule disjI2)
  qed
qed

subsection \<open>The history parser\<close>

text \<open>
  Claim C3, as the code has it. For a body that was read without error, \<open>parseFund\<close>
  returns the error \<open>invalid response body\<close> exactly when the body has no \<open>{\<close>; otherwise
  it returns what the decoder makes of the body from its first \<open>{\<close> on, so that the bytes
  before the first \<open>{\<close> never change the result. If the text from the first \<open>{\<close> on begins
  with a JSON object of the grammar of RFC 8259, nested no deeper than the decoder
  allows, then whatever bytes follow the object, the result is what unmarshalling the
  object gives: the scanner does not fail. The same holds of any text that the scanner
  of \<open>encoding/json\<close> takes for one complete value. A failure of \<open>parseFund\<close> is therefore
  the missing \<open>{\<close>, or the scanner's syntax error or unexpected end of input on the text
  from the first \<open>{\<close> on, or the failure to unmarshal the bytes of a complete value into
  the envelope, and nothing else.
\<close>

theorem parseFund_first_brace:
  assumes "BodyErr resp = None"
  shows "((parseFund env resp = Return (Inl InvalidResponseBody)) = (CHR ''{'' \<notin> set (Body resp)))
    \<and> (CHR ''{'' \<in> set (Body resp) \<longrightarrow>
          parseFund env resp =
            Return (Decode env (dropWhile (\<lambda>c. c \<noteq> CHR ''{'') (Body resp))))
    \<and> (\<forall>pre rest.
          Body resp = pre @ CHR ''{'' # rest \<and> CHR ''{'' \<notin> set pre \<longrightarrow>
          parseFund env resp = parseFund env (resp\<lparr>Body := CHR ''{'' # rest\<rparr>))
    \<and> (\<forall>pre obj post.
          Body resp = pre @ obj @ post \<and> CHR ''{'' \<notin> set pre \<and> rfcObject obj \<longrightarrow>
          parseFund env resp =
            Return (case unmarshal env obj of
                      Inl msg \<Rightarrow> Inl (UnmarshalError msg)
                    | Inr info \<Rightarrow> Inr info))
    \<and> (\<forall>pre v post m.
          Body resp = pre @ CHR ''{'' # v @ post \<and> CHR ''{'' \<notin> set pre
          \<and> readValue (CHR ''{'' # v) = Inr m \<longrightarrow>
          parseFund env resp = parseFund env (resp\<lparr>Body := CHR ''{'' # v\<rparr>)
          \<and> parseFund env resp =
              Return (case unmarshal env (take m (CHR ''{'' # v)) of
                        Inl msg \<Rightarrow> Inl (UnmarshalError msg)
                      | Inr info \<Rightarrow> Inr info))
    \<and> (\<forall>e. parseFund env resp = Return (Inl e) \<longrightarrow>
          (e = InvalidResponseBody \<and> CHR ''{'' \<notin> set (Body resp))
          \<or> ((e = JsonSyntaxError \<or> e = JsonUnexpectedEOF)
              \<and> readValue (dropWhile (\<lambda>c. c \<noteq> CHR ''{'') (Body resp)) = Inl e)
          \<or> (\<exists>n msg. readValue (dropWhile (\<lambda>c. c \<noteq> CHR ''{'') (Body resp)) = Inr n
                \<and> unmarshal env (take n (dropWhile (\<lambda>c. c \<noteq> CHR ''{'') (Body resp))) = Inl msg
                \<and> e = UnmarshalError msg))"
proof -
  have a: "(parseFund env resp = Return (Inl InvalidResponseBody)) = (CHR ''{'' \<notin> set (Body resp))"
    using assms Decode_not_invalid [of env "dropWhile (\<lambda>c. c \<noteq> CHR ''{'') (Body resp)"]
    by (auto simp: parseFund_eq)
  have b: "CHR ''{'' \<in> set (Body resp) \<longrightarrow>
          parseFund env resp =
            Return (Decode env (dropWhile (\<lambda>c. c \<noteq> CHR ''{'') (Body resp)))"
    using assms by (simp add: parseFund_eq)
  have c: "parseFund env resp = parseFund env (resp\<lparr>Body := CHR ''{'' # rest\<rparr>)"
    if "Body resp = pre @ CHR ''{'' # rest" and "CHR ''{'' \<notin> set pre" for pre rest
    using that assms by (simp add: parseFund_eq dropWhile_to_brace)
  have d: "parseFund env resp = parseFund env (resp\<lparr>Body := CHR ''{'' # v\<rparr>)
          \<and> parseFund env resp =
              Return (case unmarshal env (take m (CHR ''{'' # v)) of
                        Inl msg \<Rightarrow> Inl (UnmarshalError msg)
                      | Inr info \<Rightarrow> Inr info)"
    if "Body resp = pre @ CHR ''{'' # v @ post" and "CHR ''{'' \<notin> set pre"
      and "readValue (CHR ''{'' # v) = Inr m" for pre v post m
  proof -
    from parseFund_wrapped [OF assms that, of env]
    have w: "parseFund env resp =
              Return (case unmarshal env (take m (CHR ''{'' # v)) of
                        Inl msg \<Rightarrow> Inl (UnmarshalError msg)
                      | Inr info \<Rightarrow> Inr info)"
      and "parseFund env resp = Return (Decode env (CHR ''{'' # v))"
      by simp_all
    moreover have "parseFund env (resp\<lparr>Body := CHR ''{'' # v\<rparr>) = Return (Decode env (CHR ''{'' # v))"
      using assms by (simp add: parseFund_eq)
    ultimately show ?thesis by simp
  qed
  have e: "(e = InvalidResponseBody \<and> CHR ''{'' \<notin> set (Body resp))
          \<or> ((e = JsonSyntaxError \<or> e = JsonUnexpectedEOF)
              \<and> readValue (dropWhile (\<lambda>c. c \<noteq> CHR ''{'') (Body resp)) = Inl e)
          \<or> (\<exists>n msg. readValue (dropWhile (\<lambda>c. c \<noteq> CHR ''{'') (Body resp)) = Inr n
                \<and> unmarshal env (take n (dropWhile (\<lambda>c. c \<noteq> CHR ''{'') (Body resp))) = Inl msg
                \<and> e = UnmarshalError msg)"
    if "parseFund env resp = Return (Inl e)" for e
    using assms that by (rule parseFund_failure)
  have g: "parseFund env resp =
            Return (case unmarshal env obj of
                      Inl msg \<Rightarrow> Inl (UnmarshalError msg)
                    | Inr info \<Rightarrow> Inr info)"
    if "Body resp = pre @ obj @ post" and "CHR ''{'' \<notin> set pre" and "rfcObject obj"
    for pre obj post
    using assms that by (rule parseFund_rfcObject)
  from a b c d e g show ?thesis by blast
qed

lemmas scan_eval =
  scanStep_def stateBeginValue_def stateBeginValueOrEmpty_def stateBeginString_def
  stateBeginStringOrEmpty_def stateEndValue_def stateEndTop_def stateInString_def
  stateInStringEsc_def state0_def state1_def stateNeg_def stateDot0_def stateE_def
  stateESign_def stateE0_def expect_def goto_def scanFail_def pushParseState_def
  popParseState_def maxNestingDepth_def isSpace_def isDigit_def isHex_def Let_def

lemma historyJson_value: "readValue historyJson = Inr (length historyJson)"
  by (simp add: readValue_def historyJson_def scan_eval)

lemma errorJson_value: "readValue errorJson = Inr (length errorJson)"
  by (simp add: readValue_def errorJson_def scan_eval)

lemma richJson_value: "readValue richJson = Inr 77"
  by (simp add: readValue_def richJson_def scan_eval)

lemma typeErrorJson_value: "readValue typeErrorJson = Inr 15"
  by (simp add: readValue_def typeErrorJson_def scan_eval)

lemma brokenJson_value: "readValue (brokenJson @ '')'') = Inl JsonSyntaxError"
  by (simp add: readValue_def brokenJson_def scan_eval)

lemma cutJson_value: "readValue cutJson = Inl JsonUnexpectedEOF"
  by (simp add: readValue_def cutJson_def scan_eval nonSpace_def)

text \<open>
  Claim C3 at the body \<open>jQuery123({...})\<close> of the history example, whose object is one of
  the grammar and is parsed to its envelope; at an object with every kind of JSON value,
  wrapped in the same way; at the body \<open>jQuery123()\<close>, which has no \<open>{\<close>; and at an object
  with a value missing and an object cut short, on which the scanner fails.
\<close>

theorem parseFund_first_brace_witness:
  "BodyErr (okResponse historyBody) = None
   \<and> Body (okResponse historyBody) = ''jQuery123('' @ historyJson @ '')''
   \<and> rfcObject historyJson
   \<and> parseFund historyEnv (okResponse historyBody) = Return (Inr historyInfo)
   \<and> readValue richJson = Inr (length richJson)
   \<and> parseFund historyEnv (okResponse (''cb('' @ richJson @ '');'')) = Return (Inr emptyInfo)
   \<and> parseFund historyEnv (okResponse ''jQuery123()'') = Return (Inl InvalidResponseBody)
   \<and> parseFund historyEnv (okResponse (''cb('' @ brokenJson @ '')'')) = Return (Inl JsonSyntaxError)
   \<and> parseFund historyEnv (okResponse (''cb('' @ cutJson)) = Return (Inl JsonUnexpectedEOF)"
proof -
  let ?r = "tl richJson"
  have e: "BodyErr (okResponse body) = None" "Body (okResponse body) = body" for body
    by (simp_all add: okResponse_def)
  note c3 = parseFund_first_brace [where env = historyEnv, OF e(1)]
  have u: "unmarshal historyEnv = demoUnmarshal" by (simp add: historyEnv_def scripted_simps)
  from c3 [of historyBody]
  have "Body (okResponse historyBody) = ''jQuery123('' @ historyJson @ '')''
          \<and> CHR ''{'' \<notin> set ''jQuery123('' \<and> rfcObject historyJson \<longrightarrow>
          parseFund historyEnv (okResponse historyBody) =
            Return (case unmarshal historyEnv historyJson of
                      Inl msg \<Rightarrow> Inl (UnmarshalError msg)
                    | Inr info \<Rightarrow> Inr info)"
    by blast
  then have good: "parseFund historyEnv (okResponse historyBody) = Return (Inr historyInfo)"
    using historyJson_rfcObject by (simp add: e historyBody_def u demoUnmarshal_def)
  have rj: "richJson = CHR ''{'' # ?r" by (simp add: richJson_def)
  have rl: "length richJson = 77" by (simp add: richJson_def)
  have rval: "readValue (CHR ''{'' # ?r) = Inr 77"
    using richJson_value rj by simp
  from c3 [of "''cb('' @ richJson @ '');''"]
  have "Body (okResponse (''cb('' @ richJson @ '');'')) = ''cb('' @ CHR ''{'' # ?r @ '');''
          \<and> CHR ''{'' \<notin> set ''cb(''
          \<and> readValue (CHR ''{'' # ?r) = Inr 77 \<longrightarrow>
          parseFund historyEnv (okResponse (''cb('' @ richJson @ '');'')) =
            Return (case unmarshal historyEnv (take 77 (CHR ''{'' # ?r)) of
                      Inl msg \<Rightarrow> Inl (UnmarshalError msg)
                    | Inr info \<Rightarrow> Inr info)"
    by blast
  moreover have "Body (okResponse (''cb('' @ richJson @ '');'')) = ''cb('' @ CHR ''{'' # ?r @ '');''"
    using rj by (simp add: e)
  moreover have "take 77 (CHR ''{'' # ?r) = richJson"
    using rj rl by simp
  moreover have "richJson \<noteq> historyJson" "richJson \<noteq> errorJson"
    by (simp_all add: richJson_def historyJson_def errorJson_def)
  ultimately have rich: "parseFund historyEnv (okResponse (''cb('' @ richJson @ '');'')) =
      Return (Inr emptyInfo)"
    using rval by (simp add: u demoUnmarshal_def)
  from c3 [of "''jQuery123()''"]
  have none: "parseFund historyEnv (okResponse ''jQuery123()'') = Return (Inl InvalidResponseBody)"
    by (simp add: e)
  have bd: "dropWhile (\<lambda>c. c \<noteq> CHR ''{'') (''cb('' @ brokenJson @ '')'') = brokenJson @ '')''"
    "CHR ''{'' \<in> set (''cb('' @ brokenJson @ '')'')"
    by (simp_all add: brokenJson_def)
  from c3 [of "''cb('' @ brokenJson @ '')''"] bd
  have broken: "parseFund historyEnv (okResponse (''cb('' @ brokenJson @ '')'')) =
      Return (Inl JsonSyntaxError)"
    by (simp add: e Decode_def brokenJson_value)
  have cd: "dropWhile (\<lambda>c. c \<noteq> CHR ''{'') (''cb('' @ cutJson) = cutJson"
    "CHR ''{'' \<in> set (''cb('' @ cutJson)"
    by (simp_all add: cutJson_def)
  from c3 [of "''cb('' @ cutJson"] cd
  have cut: "parseFund historyEnv (okResponse (''cb('' @ cutJson)) = Return (Inl JsonUnexpectedEOF)"
    by (simp add: e Decode_def cutJson_value)
  from good rich none broken cut rl richJson_value historyJson_rfcObject show ?thesis
    by (simp add: e historyBody_def)
qed

text \<open>
  Claim C3 as the specification states it fails at a body whose JSON object is complete
  and well-formed but has a string where the envelope has a number: decoding fails,
  although the JSON is structurally valid.
\<close>

theorem parseFund_valid_json_counterexample:
  \<open>BodyErr (okResponse ''jQuery({"ErrCode":"x"})'') = None
   \<and> readValue ''{"ErrCode":"x"}'' = Inr (length ''{"ErrCode":"x"}'')
   \<and> unmarshal historyEnv ''{"ErrCode":"x"}'' =
       Inl ''json: cannot unmarshal string into Go struct field FundInfo.ErrCode of type int''
   \<and> parseFund historyEnv (okResponse ''jQuery({"ErrCode":"x"})'') =
       Return (Inl (UnmarshalError
         ''json: cannot unmarshal string into Go struct field FundInfo.ErrCode of type int''))\<close>
proof -
  have u: "unmarshal historyEnv = demoUnmarshal" by (simp add: historyEnv_def scripted_simps)
  have v: \<open>readValue ''{"ErrCode":"x"}'' = Inr 15\<close>
    using typeErrorJson_value by (simp add: typeErrorJson_def)
  have m: \<open>demoUnmarshal ''{"ErrCode":"x"}'' =
       Inl ''json: cannot unmarshal string into Go struct field FundInfo.ErrCode of type int''\<close>
    by (simp add: demoUnmarshal_def typeErrorJson_def historyJson_def errorJson_def richJson_def)
  have d: \<open>dropWhile (\<lambda>c. c \<noteq> CHR ''{'') ''jQuery({"ErrCode":"x"})'' = ''{"ErrCode":"x"})''\<close>
    by simp
  have t: \<open>readValue ''{"ErrCode":"x"})'' = Inr 15\<close>
    by (simp add: readValue_def scan_eval)
  have \<open>parseFund historyEnv (okResponse ''jQuery({"ErrCode":"x"})'') =
       Return (Inl (UnmarshalError
         ''json: cannot unmarshal string into Go struct field FundInfo.ErrCode of type int''))\<close>
    by (simp add: parseFund_eq okResponse_def d Decode_def t u m)
  with v m show ?thesis by (simp add: okResponse_def u)
qed

lemma parseFund_errorBody:
  "parseFund (scriptedEnv replies demoUnmarshal) (okResponse errorBody) = Return (Inr errorInfo)"
proof -
  let ?v = "tl errorJson"
  have j: "errorJson = CHR ''{'' # ?v" by (simp add: errorJson_def)
  have l: "length errorJson = 57" by (simp add: errorJson_def)
  have "BodyErr (okResponse errorBody) = None" by (simp add: okResponse_def)
  moreover have "Body (okResponse errorBody) = ''jQuer('' @ CHR ''{'' # ?v @ '')''"
    using j by (simp add: okResponse_def errorBody_def)
  moreover have "CHR ''{'' \<notin> set ''jQuer(''" by simp
  moreover have "readValue (CHR ''{'' # ?v) = Inr 57"
    using errorJson_value j l by simp
  ultimately have "parseFund (scriptedEnv replies demoUnmarshal) (okResponse errorBody) =
      Return (case unmarshal (scriptedEnv replies demoUnmarshal) (take 57 (CHR ''{'' # ?v)) of
                 Inl msg \<Rightarrow> Inl (UnmarshalError msg)
               | Inr info \<Rightarrow> Inr info)"
    using parseFund_wrapped [of "okResponse errorBody" "''jQuer(''" ?v "'')''" 57
        "scriptedEnv replies demoUnmarshal"]
    by simp
  moreover have "take 57 (CHR ''{'' # ?v) = errorJson" using j l by simp
  moreover have "errorJson \<noteq> historyJson" by (simp add: errorJson_def historyJson_def)
  ultimately show ?thesis by (simp add: scripted_simps demoUnmarshal_def)
qed

lemma parseFund_historyBody:
  "parseFund (scriptedEnv replies demoUnmarshal) (okResponse historyBody) = Return (Inr historyInfo)"
proof -
  let ?v = "tl historyJson"
  have j: "historyJson = CHR ''{'' # ?v" by (simp add: historyJson_def)
  have l: "length historyJson = 129" by (simp add: historyJson_def)
  have "BodyErr (okResponse historyBody) = None" by (simp add: okResponse_def)
  moreover have "Body (okResponse historyBody) = ''jQuery123('' @ CHR ''{'' # ?v @ '')''"
    using j by (simp add: okResponse_def historyBody_def)
  moreover have "CHR ''{'' \<notin> set ''jQuery123(''" by simp
  moreover have "readValue (CHR ''{'' # ?v) = Inr 129"
    using historyJson_value j l by simp
  ultimately have "parseFund (scriptedEnv replies demoUnmarshal) (okResponse historyBody) =
      Return (case unmarshal (scriptedEnv replies demoUnmarshal) (take 129 (CHR ''{'' # ?v)) of
                 Inl msg \<Rightarrow> Inl (UnmarshalError msg)
               | Inr info \<Rightarrow> Inr info)"
    using parseFund_wrapped [of "okResponse historyBody" "''jQuery123(''" ?v "'')''" 129
        "scriptedEnv replies demoUnmarshal"]
    by simp
  moreover have "take 129 (CHR ''{'' # ?v) = historyJson" using j l by simp
  ultimately show ?thesis by (simp add: scripted_simps demoUnmarshal_def)
qed

section \<open>Properties of the point builder and the sink\<close>

text \<open>The field map of a record, and what the library's checks make of it.\<close>

lemma fieldsOf_strings:
  "map_of (fieldsOf env fund) ''NAVTYPE'' = Some (StringValue (NAVTYPE fund))"
  "map_of (fieldsOf env fund) ''SGZT'' = Some (StringValue (SGZT fund))"
  "map_of (fieldsOf env fund) ''SHZT'' = Some (StringValue (SHZT fund))"
  by (simp_all add: fieldsOf_def addFloat_def Let_def split: sum.splits)

lemma fieldsOf_numbers:
  "map_of (fieldsOf env fund) ''DWJZ'' =
     (case parseFloat env (DWJZ fund) of Inr v \<Rightarrow> Some (FloatValue v) | Inl _ \<Rightarrow> None)"
  "map_of (fieldsOf env fund) ''LJJZ'' =
     (case parseFloat env (LJJZ fund) of Inr v \<Rightarrow> Some (FloatValue v) | Inl _ \<Rightarrow> None)"
  "map_of (fieldsOf env fund) ''JZZZL'' =
     (case parseFloat env (JZZZL fund) of Inr v \<Rightarrow> Some (FloatValue v) | Inl _ \<Rightarrow> None)"
  by (simp_all add: fieldsOf_def addFloat_def Let_def split: sum.splits)

lemma fieldsOf_keys:
  "dom (map_of (fieldsOf env fund)) \<subseteq> {''NAVTYPE'', ''SGZT'', ''SHZT'', ''DWJZ'', ''LJJZ'', ''JZZZL''}"
  by (simp add: dom_map_of_conv_image_fst fieldsOf_def addFloat_def Let_def split: sum.splits)

lemma fieldsOf_distinct: "distinct (map fst (fieldsOf env fund))"
  by (simp add: fieldsOf_def addFloat_def Let_def split: sum.splits)

lemma fieldsOf_not_empty: "fieldsOf env fund \<noteq> []"
  by (simp add: fieldsOf_def addFloat_def Let_def split: sum.splits)

lemma fieldsOf_longest: "longestName (fieldsOf env fund) = 7"
  by (simp add: longestName_def fieldsOf_def addFloat_def Let_def split: sum.splits)

lemma fieldsOf_bad:
  "list_ex badField (fieldsOf env fund) =
     (nonFiniteParse env (DWJZ fund) \<or> nonFiniteParse env (LJJZ fund)
      \<or> nonFiniteParse env (JZZZL fund))"
  by (simp add: nonFiniteParse_def fieldsOf_def addFloat_def Let_def split: sum.splits)

lemma NewPoint_record:
  "NewPoint env ''fund'' tags (fieldsOf env fund) t =
     (case checkTime env t of
        Some msg \<Rightarrow> Inl (PointError msg)
      | None \<Rightarrow>
          if nonFiniteParse env (DWJZ fund) \<or> nonFiniteParse env (LJJZ fund)
             \<or> nonFiniteParse env (JZZZL fund)
          then Inl PointFieldError
          else
            (case checkKey env ''fund'' tags 7 of
               Some msg \<Rightarrow> Inl (PointError msg)
             | None \<Rightarrow>
                 Inr \<lparr>ptName = ''fund'', ptTags = keptTags tags,
                      ptFields = map_of (fieldsOf env fund), ptTime = t\<rparr>))"
  by (simp add: NewPoint_def fieldsOf_not_empty fieldsOf_longest fieldsOf_bad
      split: option.splits)

lemma NewPoint_accepted:
  "pointAccepted env tags fund t \<Longrightarrow>
   NewPoint env ''fund'' tags (fieldsOf env fund) t =
     Inr \<lparr>ptName = ''fund'', ptTags = keptTags tags, ptFields = map_of (fieldsOf env fund),
          ptTime = t\<rparr>"
  by (simp add: NewPoint_record pointAccepted_def)

lemma NewPoint_refused:
  "\<not> pointAccepted env tags fund t \<Longrightarrow>
   \<exists>err. NewPoint env ''fund'' tags (fieldsOf env fund) t = Inl err"
  by (auto simp: NewPoint_record pointAccepted_def split: option.splits)

lemma NewPoint_Inr:
  "NewPoint env ''fund'' tags (fieldsOf env fund) t = Inr pt \<Longrightarrow> pointAccepted env tags fund t"
  using NewPoint_refused [of env tags fund t] by auto

text \<open>The sample world accepts every time and every key; its only value that is not finite is that of \<open>NaN\<close>.\<close>

lemma scripted_nonFinite: "nonFiniteParse (scriptedEnv replies unm) src = (src = ''NaN'')"
  by (simp add: nonFiniteParse_def scripted_simps demoFloats_def nonFinite_def)

lemma scripted_accepted:
  "pointAccepted (scriptedEnv replies unm) tags fund t =
     (DWJZ fund \<noteq> ''NaN'' \<and> LJJZ fund \<noteq> ''NaN'' \<and> JZZZL fund \<noteq> ''NaN'')"
  by (simp add: pointAccepted_def scripted_nonFinite scripted_simps)

lemma sample_accepted:
  "pointAccepted storeEnv tags sampleRecord t"
  "pointAccepted storeEnv tags nextRecord t"
  "\<not> pointAccepted storeEnv tags nanRecord t"
  by (simp_all add: storeEnv_def scripted_accepted sampleRecord_def nextRecord_def
      nanRecord_def)

lemma sample_fields:
  "fieldsOf storeEnv sampleRecord =
     [(''NAVTYPE'', StringValue ''1''), (''SGZT'', StringValue ''open''),
      (''SHZT'', StringValue ''closed''), (''JZZZL'', FloatValue 0x3FBEB851EB851EB8)]"
  by (simp add: fieldsOf_def addFloat_def storeEnv_simps sampleRecord_def demoFloats_def)

text \<open>
  Claim C4, as the code has it. For a record whose date parses, the field map that the
  loop of \<open>sink\<close> hands to \<open>client.NewPoint\<close> always holds the three strings NAVTYPE, SGZT
  and SHZT, and holds each of DWJZ, LJJZ and JZZZL exactly when \<open>strconv.ParseFloat\<close>
  accepts its text, with the parsed value, and nothing else. A text that does not parse
  only leaves its field out, and never makes the library refuse the point: the point is
  refused if the store cannot hold its time, if a text that did parse gave a NaN or an
  infinity, or if the series key of the instrument's tags is too long, and in no other
  case; otherwise it is added, with the tags whose value is not empty, and the loop goes
  on.
\<close>

theorem sink_point_fields:
  assumes "parseLocal env (FSRQ fund) = Inr t"
  shows "sinkLoop env tags (fund # rest) bp =
       (case checkTime env t of
          Some msg \<Rightarrow> Inl (PointError msg)
        | None \<Rightarrow>
            if nonFiniteParse env (DWJZ fund) \<or> nonFiniteParse env (LJJZ fund)
               \<or> nonFiniteParse env (JZZZL fund)
            then Inl PointFieldError
            else
              (case checkKey env ''fund'' tags 7 of
                 Some msg \<Rightarrow> Inl (PointError msg)
               | None \<Rightarrow>
                   sinkLoop env tags rest
                     (bp @ [\<lparr>ptName = ''fund'', ptTags = keptTags tags,
                             ptFields = map_of (fieldsOf env fund), ptTime = t\<rparr>])))
    \<and> map_of (fieldsOf env fund) ''NAVTYPE'' = Some (StringValue (NAVTYPE fund))
    \<and> map_of (fieldsOf env fund) ''SGZT'' = Some (StringValue (SGZT fund))
    \<and> map_of (fieldsOf env fund) ''SHZT'' = Some (StringValue (SHZT fund))
    \<and> map_of (fieldsOf env fund) ''DWJZ'' =
        (case parseFloat env (DWJZ fund) of Inr v \<Rightarrow> Some (FloatValue v) | Inl _ \<Rightarrow> None)
    \<and> map_of (fieldsOf env fund) ''LJJZ'' =
        (case parseFloat env (LJJZ fund) of Inr v \<Rightarrow> Some (FloatValue v) | Inl _ \<Rightarrow> None)
    \<and> map_of (fieldsOf env fund) ''JZZZL'' =
        (case parseFloat env (JZZZL fund) of Inr v \<Rightarrow> Some (FloatValue v) | Inl _ \<Rightarrow> None)
    \<and> dom (map_of (fieldsOf env fund)) \<subseteq>
        {''NAVTYPE'', ''SGZT'', ''SHZT'', ''DWJZ'', ''LJJZ'', ''JZZZL''}"
proof -
  have "sinkLoop env tags (fund # rest) bp =
       (case checkTime env t of
          Some msg \<Rightarrow> Inl (PointError msg)
        | None \<Rightarrow>
            if nonFiniteParse env (DWJZ fund) \<or> nonFiniteParse env (LJJZ fund)
               \<or> nonFiniteParse env (JZZZL fund)
            then Inl PointFieldError
            else
              (case checkKey env ''fund'' tags 7 of
                 Some msg \<Rightarrow> Inl (PointError msg)
               | None \<Rightarrow>
                   sinkLoop env tags rest
                     (bp @ [\<lparr>ptName = ''fund'', ptTags = keptTags tags,
                             ptFields = map_of (fieldsOf env fund), ptTime = t\<rparr>])))"
    using assms by (simp add: NewPoint_record split: option.splits)
  then show ?thesis
    using fieldsOf_strings [of env fund] fieldsOf_numbers [of env fund] fieldsOf_keys [of env fund]
    by (simp only: simp_thms)
qed

text \<open>
  Claim C4 at a record with an empty unit value and the cumulative value \<open>n/a\<close>: the
  point is built, without these two fields.
\<close>

theorem sink_point_fields_witness:
  "parseLocal storeEnv (FSRQ sampleRecord) = Inr 1704153600
   \<and> DWJZ sampleRecord = [] \<and> LJJZ sampleRecord = ''n/a'' \<and> JZZZL sampleRecord = ''0.12''
   \<and> sinkLoop storeEnv (tagsOf sampleNode) [sampleRecord] [] =
       Inr [\<lparr>ptName = ''fund'', ptTags = keptTags (tagsOf sampleNode),
              ptFields = map_of (fieldsOf storeEnv sampleRecord), ptTime = 1704153600\<rparr>]
   \<and> map_of (fieldsOf storeEnv sampleRecord) ''NAVTYPE'' = Some (StringValue ''1'')
   \<and> map_of (fieldsOf storeEnv sampleRecord) ''SGZT'' = Some (StringValue ''open'')
   \<and> map_of (fieldsOf storeEnv sampleRecord) ''SHZT'' = Some (StringValue ''closed'')
   \<and> map_of (fieldsOf storeEnv sampleRecord) ''DWJZ'' = None
   \<and> map_of (fieldsOf storeEnv sampleRecord) ''LJJZ'' = None
   \<and> map_of (fieldsOf storeEnv sampleRecord) ''JZZZL'' = Some (FloatValue 0x3FBEB851EB851EB8)"
proof -
  have d: "parseLocal storeEnv (FSRQ sampleRecord) = Inr 1704153600"
    by (simp add: storeEnv_simps sample_dates)
  have f: "parseFloat storeEnv (DWJZ sampleRecord) = Inl ''invalid syntax''"
    "parseFloat storeEnv (LJJZ sampleRecord) = Inl ''invalid syntax''"
    "parseFloat storeEnv (JZZZL sampleRecord) = Inr 0x3FBEB851EB851EB8"
    by (simp_all add: storeEnv_simps sampleRecord_def demoFloats_def)
  have n: "\<not> nonFiniteParse storeEnv (DWJZ sampleRecord)"
    "\<not> nonFiniteParse storeEnv (LJJZ sampleRecord)"
    "\<not> nonFiniteParse storeEnv (JZZZL sampleRecord)"
    by (simp_all add: storeEnv_def scripted_nonFinite sampleRecord_def)
  have s: "NAVTYPE sampleRecord = ''1''" "SGZT sampleRecord = ''open''"
    "SHZT sampleRecord = ''closed''" "DWJZ sampleRecord = []" "LJJZ sampleRecord = ''n/a''"
    "JZZZL sampleRecord = ''0.12''"
    by (simp_all add: sampleRecord_def)
  from sink_point_fields [OF d, of "tagsOf sampleNode" "[]" "[]"] show ?thesis
    using f n by (simp add: s storeEnv_simps sample_dates)
qed

text \<open>
  Claim C4 as the specification states it fails at a record whose unit value is the text
  \<open>NaN\<close>, which is no base-10 number: \<open>strconv.ParseFloat\<close> accepts it, the field is put into
  the map, the library refuses the point, and \<open>sink\<close> returns the error without writing
  the batch, which loses the point of the record before it as well.
\<close>

theorem sink_nan_value_counterexample:
  "parseLocal storeEnv (FSRQ nanRecord) = Inr 1704240000
   \<and> DWJZ nanRecord = ''NaN''
   \<and> parseFloat storeEnv ''NaN'' = Inr 0x7FF8000000000001
   \<and> map_of (fieldsOf storeEnv nanRecord) ''DWJZ'' = Some (FloatValue 0x7FF8000000000001)
   \<and> NewPoint storeEnv ''fund'' (tagsOf sampleNode) (fieldsOf storeEnv nanRecord) 1704240000 =
       Inl PointFieldError
   \<and> sink storeEnv sampleNode (envelope [sampleRecord, nanRecord]) [] = (Some PointFieldError, [])"
proof -
  have d: "parseLocal storeEnv (FSRQ nanRecord) = Inr 1704240000"
    "parseLocal storeEnv (FSRQ sampleRecord) = Inr 1704153600"
    by (simp_all add: storeEnv_simps nanRecord_def sampleRecord_def demoDates_def)
  have v: "DWJZ nanRecord = ''NaN''" by (simp add: nanRecord_def sampleRecord_def)
  have f: "parseFloat storeEnv ''NaN'' = Inr 0x7FF8000000000001"
    by (simp add: storeEnv_simps demoFloats_def)
  have m: "map_of (fieldsOf storeEnv nanRecord) ''DWJZ'' = Some (FloatValue 0x7FF8000000000001)"
    by (simp add: fieldsOf_numbers v f)
  have n: "nonFiniteParse storeEnv (DWJZ nanRecord)"
    by (simp add: v storeEnv_def scripted_nonFinite)
  have p: "NewPoint storeEnv ''fund'' tags (fieldsOf storeEnv nanRecord) t = Inl PointFieldError"
    for tags t
    by (simp add: NewPoint_record n storeEnv_simps)
  have "sink storeEnv sampleNode (envelope [sampleRecord, nanRecord]) [] = (Some PointFieldError, [])"
    by (simp add: sink_def envelope_def sample_dates p NewPoint_accepted sample_accepted
        storeEnv_simps)
  with d v f m p show ?thesis by simp
qed

text \<open>How the loop of \<open>sink\<close> ends, by what the dates and the library's checks are.\<close>

lemma sinkLoop_accepted:
  assumes "\<forall>fund\<in>set funds. \<exists>t. parseLocal env (FSRQ fund) = Inr t
             \<and> pointAccepted env tags fund t"
  shows "sinkLoop env tags funds bp = Inr (bp @ map (pointOf env tags) funds)"
  using assms
proof (induction funds arbitrary: bp)
  case Nil
  then show ?case by simp
next
  case (Cons fund rest)
  then obtain t where "parseLocal env (FSRQ fund) = Inr t"
    and "pointAccepted env tags fund t"
    by auto
  moreover have "sinkLoop env tags rest (bp @ [pointOf env tags fund])
      = Inr ((bp @ [pointOf env tags fund]) @ map (pointOf env tags) rest)"
    using Cons.prems by (intro Cons.IH) simp
  ultimately show ?case by (simp add: NewPoint_accepted pointOf_def)
qed

lemma sinkLoop_refused:
  assumes "\<forall>fund\<in>set funds. \<exists>t. parseLocal env (FSRQ fund) = Inr t"
    and "\<exists>fund\<in>set funds.
           \<not> pointAccepted env tags fund (projr (parseLocal env (FSRQ fund)))"
  shows "\<exists>err. sinkLoop env tags funds bp = Inl err"
  using assms
proof (induction funds arbitrary: bp)
  case Nil
  then show ?case by simp
next
  case (Cons fund rest)
  then obtain t where t: "parseLocal env (FSRQ fund) = Inr t" by auto
  show ?case
  proof (cases "pointAccepted env tags fund t")
    case True
    from Cons.prems have "\<forall>fund\<in>set rest. \<exists>t. parseLocal env (FSRQ fund) = Inr t"
      by simp
    moreover from t True Cons.prems have "\<exists>fund\<in>set rest.
           \<not> pointAccepted env tags fund (projr (parseLocal env (FSRQ fund)))"
      by auto
    ultimately have "\<exists>err. sinkLoop env tags rest (bp @ [pointOf env tags fund]) = Inl err"
      by (rule Cons.IH)
    with t True show ?thesis by (simp add: NewPoint_accepted pointOf_def)
  next
    case False
    from NewPoint_refused [OF this] t show ?thesis by auto
  qed
qed





text \<open>The tags that a point keeps of the instrument's five.\<close>

lemma keptTags_dom: "dom (keptTags tags) = {k \<in> dom tags. tags k \<noteq> Some []}"
  by (auto simp: keptTags_def dom_def split: option.splits if_splits)

lemma tagsOf_dom: "dom (tagsOf node) = {''code'', ''abridge'', ''name'', ''type'', ''pinyin''}"
  by (auto simp: tagsOf_def split: if_splits)

lemma tagsOf_values:
  "tagsOf node ''code'' = Some (Code node)"
  "tagsOf node ''abridge'' = Some (Abridge node)"
  "tagsOf node ''name'' = Some (Name node)"
  "tagsOf node ''type'' = Some (Type node)"
  "tagsOf node ''pinyin'' = Some (Pinyin node)"
  by (simp_all add: tagsOf_def)

lemma keptTags_values:
  "keptTags (tagsOf node) ''code'' = (if Code node = [] then None else Some (Code node))"
  "keptTags (tagsOf node) ''abridge'' = (if Abridge node = [] then None else Some (Abridge node))"
  "keptTags (tagsOf node) ''name'' = (if Name node = [] then None else Some (Name node))"
  "keptTags (tagsOf node) ''type'' = (if Type node = [] then None else Some (Type node))"
  "keptTags (tagsOf node) ''pinyin'' = (if Pinyin node = [] then None else Some (Pinyin node))"
  by (simp_all add: keptTags_def tagsOf_values)

lemma keptTags_all:
  assumes "Code node \<noteq> []" "Abridge node \<noteq> []" "Name node \<noteq> []" "Type node \<noteq> []"
    "Pinyin node \<noteq> []"
  shows "keptTags (tagsOf node) = tagsOf node"
proof
  fix k
  show "keptTags (tagsOf node) k = tagsOf node k"
    using assms by (simp add: keptTags_def tagsOf_def)
qed

text \<open>
  Claim C8, as the code has it. Let the dates of all records of the envelope parse. If
  the library makes the batch and accepts the point of every record (the store can hold
  its time, none of its parsed values is a NaN or an infinity, and the series key is
  short enough), \<open>sink\<close> hands exactly one batch to the store, for the database \<open>fund\<close>,
  whose points are the points of the records, one per record and in the records' order;
  otherwise it writes nothing and returns an error. Every such point has the measurement
  name \<open>fund\<close>, the record's fields and date, and the same tags: those of the five tags
  code, abridge, name, type and pinyin of the instrument's record whose value is not
  empty, with that value. They are all five when the instrument's record has no empty
  string.
\<close>

theorem sink_batch_one_point_per_record:
  assumes "\<forall>fund\<in>set (LSJZList (Data info)). \<exists>t. parseLocal env (FSRQ fund) = Inr t"
  shows "(if newBatchPoints env ''fund'' = None
           \<and> (\<forall>fund\<in>set (LSJZList (Data info)).
                 pointAccepted env (tagsOf node) fund (projr (parseLocal env (FSRQ fund))))
          then \<exists>bp. bpDatabase bp = ''fund''
                 \<and> bpPoints bp = map (pointOf env (tagsOf node)) (LSJZList (Data info))
                 \<and> snd (sink env node info tr) =
                     tr @ Write bp #
                       (case influxWrite env tr bp of
                          None \<Rightarrow> [LogSinkSuccess (Code node) (Name node)
                                      (length (LSJZList (Data info)))]
                        | Some msg \<Rightarrow> [])
          else \<exists>err. sink env node info tr = (Some err, tr))
    \<and> (\<forall>fund\<in>set (LSJZList (Data info)).
          ptName (pointOf env (tagsOf node) fund) = ''fund''
          \<and> ptTags (pointOf env (tagsOf node) fund) = keptTags (tagsOf node)
          \<and> ptFields (pointOf env (tagsOf node) fund) = map_of (fieldsOf env fund)
          \<and> parseLocal env (FSRQ fund) = Inr (ptTime (pointOf env (tagsOf node) fund)))
    \<and> dom (keptTags (tagsOf node)) =
        {k \<in> {''code'', ''abridge'', ''name'', ''type'', ''pinyin''}. tagsOf node k \<noteq> Some []}
    \<and> keptTags (tagsOf node) ''code'' = (if Code node = [] then None else Some (Code node))
    \<and> keptTags (tagsOf node) ''abridge'' =
        (if Abridge node = [] then None else Some (Abridge node))
    \<and> keptTags (tagsOf node) ''name'' = (if Name node = [] then None else Some (Name node))
    \<and> keptTags (tagsOf node) ''type'' = (if Type node = [] then None else Some (Type node))
    \<and> keptTags (tagsOf node) ''pinyin'' =
        (if Pinyin node = [] then None else Some (Pinyin node))
    \<and> (Code node \<noteq> [] \<and> Abridge node \<noteq> [] \<and> Name node \<noteq> [] \<and> Type node \<noteq> []
        \<and> Pinyin node \<noteq> [] \<longrightarrow>
        keptTags (tagsOf node) = tagsOf node
        \<and> dom (keptTags (tagsOf node)) = {''code'', ''abridge'', ''name'', ''type'', ''pinyin''}
        \<and> card (dom (keptTags (tagsOf node))) = 5)"
proof -
  let ?funds = "LSJZList (Data info)"
  let ?pts = "map (pointOf env (tagsOf node)) ?funds"
  let ?bp = "\<lparr>bpDatabase = ''fund'', bpPoints = ?pts\<rparr>"
  let ?accepted = "newBatchPoints env ''fund'' = None
           \<and> (\<forall>fund\<in>set ?funds.
                 pointAccepted env (tagsOf node) fund (projr (parseLocal env (FSRQ fund))))"
  have written: "\<exists>bp. bpDatabase bp = ''fund'' \<and> bpPoints bp = ?pts
                 \<and> snd (sink env node info tr) =
                     tr @ Write bp #
                       (case influxWrite env tr bp of
                          None \<Rightarrow> [LogSinkSuccess (Code node) (Name node) (length ?funds)]
                        | Some msg \<Rightarrow> [])"
    if ok: ?accepted
  proof -
    from ok assms have "\<forall>fund\<in>set ?funds. \<exists>t. parseLocal env (FSRQ fund) = Inr t
             \<and> pointAccepted env (tagsOf node) fund t"
      by fastforce
    then have "sinkLoop env (tagsOf node) ?funds [] = Inr ([] @ ?pts)"
      by (rule sinkLoop_accepted)
    with ok have "snd (sink env node info tr) =
        tr @ Write ?bp #
          (case influxWrite env tr ?bp of
             None \<Rightarrow> [LogSinkSuccess (Code node) (Name node) (length ?funds)]
           | Some msg \<Rightarrow> [])"
      by (simp add: sink_def split: option.splits)
    then show ?thesis by (intro exI [of _ ?bp]) simp
  qed
  have refused: "\<exists>err. sink env node info tr = (Some err, tr)" if no: "\<not> ?accepted"
  proof (cases "newBatchPoints env ''fund''")
    case (Some msg)
    then show ?thesis by (simp add: sink_def)
  next
    case None
    with no have "\<exists>fund\<in>set ?funds.
           \<not> pointAccepted env (tagsOf node) fund (projr (parseLocal env (FSRQ fund)))"
      by simp
    with assms obtain err where
      "sinkLoop env (tagsOf node) ?funds [] = Inl err"
      using sinkLoop_refused by blast
    with None show ?thesis by (simp add: sink_def)
  qed
  have points: "\<forall>fund\<in>set ?funds.
          ptName (pointOf env (tagsOf node) fund) = ''fund''
          \<and> ptTags (pointOf env (tagsOf node) fund) = keptTags (tagsOf node)
          \<and> ptFields (pointOf env (tagsOf node) fund) = map_of (fieldsOf env fund)
          \<and> parseLocal env (FSRQ fund) = Inr (ptTime (pointOf env (tagsOf node) fund))"
    using assms by (auto simp: pointOf_def)
  have keys: "dom (keptTags (tagsOf node)) =
        {k \<in> {''code'', ''abridge'', ''name'', ''type'', ''pinyin''}. tagsOf node k \<noteq> Some []}"
    by (simp only: keptTags_dom tagsOf_dom)
  have five: "Code node \<noteq> [] \<and> Abridge node \<noteq> [] \<and> Name node \<noteq> [] \<and> Type node \<noteq> []
        \<and> Pinyin node \<noteq> [] \<longrightarrow>
        keptTags (tagsOf node) = tagsOf node
        \<and> dom (keptTags (tagsOf node)) = {''code'', ''abridge'', ''name'', ''type'', ''pinyin''}
        \<and> card (dom (keptTags (tagsOf node))) = 5"
  proof
    assume "Code node \<noteq> [] \<and> Abridge node \<noteq> [] \<and> Name node \<noteq> [] \<and> Type node \<noteq> []
        \<and> Pinyin node \<noteq> []"
    then have "keptTags (tagsOf node) = tagsOf node" by (simp add: keptTags_all)
    moreover have "card {''code'', ''abridge'', ''name'', ''type'', ''pinyin''} = 5" by simp
    ultimately show "keptTags (tagsOf node) = tagsOf node
        \<and> dom (keptTags (tagsOf node)) = {''code'', ''abridge'', ''name'', ''type'', ''pinyin''}
        \<and> card (dom (keptTags (tagsOf node))) = 5"
      by (simp only: tagsOf_dom simp_thms)
  qed
  have "if ?accepted
      then \<exists>bp. bpDatabase bp = ''fund'' \<and> bpPoints bp = ?pts
                 \<and> snd (sink env node info tr) =
                     tr @ Write bp #
                       (case influxWrite env tr bp of
                          None \<Rightarrow> [LogSinkSuccess (Code node) (Name node) (length ?funds)]
                        | Some msg \<Rightarrow> [])
      else \<exists>err. sink env node info tr = (Some err, tr)"
  proof (cases ?accepted)
    case True
    show ?thesis unfolding if_P [OF True] by (rule written [OF True])
  next
    case False
    show ?thesis unfolding if_not_P [OF False] by (rule refused [OF False])
  qed
  with points keys five keptTags_values [of node] show ?thesis by (simp only: simp_thms)
qed

text \<open>
  Claim C8 at an envelope of two records, for an instrument without an empty string: the
  batch holds their two points, in order, each with the five tags.
\<close>

theorem sink_batch_one_point_per_record_witness:
  "snd (sink storeEnv sampleNode (envelope [sampleRecord, nextRecord]) []) =
     [Write \<lparr>bpDatabase = ''fund'',
             bpPoints =
               [\<lparr>ptName = ''fund'', ptTags = tagsOf sampleNode,
                 ptFields = map_of (fieldsOf storeEnv sampleRecord), ptTime = 1704153600\<rparr>,
                \<lparr>ptName = ''fund'', ptTags = tagsOf sampleNode,
                 ptFields = map_of (fieldsOf storeEnv nextRecord), ptTime = 1704240000\<rparr>]\<rparr>,
      LogSinkSuccess ''001'' ''Alpha'' 2]
   \<and> card (dom (tagsOf sampleNode)) = 5"
proof -
  let ?info = "envelope [sampleRecord, nextRecord]"
  have l: "LSJZList (Data ?info) = [sampleRecord, nextRecord]"
    by (simp add: envelope_def)
  have h: "\<forall>fund\<in>set (LSJZList (Data ?info)). \<exists>t. parseLocal storeEnv (FSRQ fund) = Inr t"
    by (simp add: l storeEnv_simps sample_dates)
  have acc: "newBatchPoints storeEnv ''fund'' = None
      \<and> (\<forall>fund\<in>set (LSJZList (Data ?info)).
             pointAccepted storeEnv (tagsOf sampleNode) fund
               (projr (parseLocal storeEnv (FSRQ fund))))"
    by (simp add: l storeEnv_simps sample_accepted)
  have full: "Code sampleNode \<noteq> [] \<and> Abridge sampleNode \<noteq> [] \<and> Name sampleNode \<noteq> []
      \<and> Type sampleNode \<noteq> [] \<and> Pinyin sampleNode \<noteq> []"
    by (simp add: sampleNode_def)
  note c8 = sink_batch_one_point_per_record [OF h, of sampleNode "[]"]
  have "if newBatchPoints storeEnv ''fund'' = None
      \<and> (\<forall>fund\<in>set (LSJZList (Data ?info)).
             pointAccepted storeEnv (tagsOf sampleNode) fund
               (projr (parseLocal storeEnv (FSRQ fund))))
      then \<exists>bp. bpDatabase bp = ''fund''
             \<and> bpPoints bp = map (pointOf storeEnv (tagsOf sampleNode)) (LSJZList (Data ?info))
             \<and> snd (sink storeEnv sampleNode ?info []) =
                 [] @ Write bp #
                   (case influxWrite storeEnv [] bp of
                      None \<Rightarrow> [LogSinkSuccess (Code sampleNode) (Name sampleNode)
                                  (length (LSJZList (Data ?info)))]
                    | Some msg \<Rightarrow> [])
      else \<exists>err. sink storeEnv sampleNode ?info [] = (Some err, [])"
    using c8 by (rule conjunct1)
  then have "\<exists>bp. bpDatabase bp = ''fund''
             \<and> bpPoints bp = map (pointOf storeEnv (tagsOf sampleNode)) (LSJZList (Data ?info))
             \<and> snd (sink storeEnv sampleNode ?info []) =
                 [] @ Write bp #
                   (case influxWrite storeEnv [] bp of
                      None \<Rightarrow> [LogSinkSuccess (Code sampleNode) (Name sampleNode)
                                  (length (LSJZList (Data ?info)))]
                    | Some msg \<Rightarrow> [])"
    unfolding if_P [OF acc] .
  then obtain bp where "bpDatabase bp = ''fund''"
    and "bpPoints bp = map (pointOf storeEnv (tagsOf sampleNode)) [sampleRecord, nextRecord]"
    and "snd (sink storeEnv sampleNode ?info []) =
           [Write bp, LogSinkSuccess (Code sampleNode) (Name sampleNode) 2]"
    unfolding l by (auto simp: storeEnv_simps)
  moreover from this have "bp = \<lparr>bpDatabase = ''fund'',
      bpPoints = map (pointOf storeEnv (tagsOf sampleNode)) [sampleRecord, nextRecord]\<rparr>"
    by simp
  moreover from c8 full have "keptTags (tagsOf sampleNode) = tagsOf sampleNode"
    and "card (dom (keptTags (tagsOf sampleNode))) = 5"
    by blast+
  ultimately show ?thesis
    by (simp add: pointOf_def storeEnv_simps sample_dates sampleNode_def)
qed

text \<open>
  Claim C8 as the specification states it fails for an instrument whose abbreviation and
  romanized name are empty, which the catalog parser returns for the tuple
  \<open>["001","","Alpha","T1",""]\<close>: the point written for it carries three tags, not five.
\<close>

theorem sink_empty_tags_counterexample:
  \<open>getNodeList (catalogEnv payloadBare) [] = (Return (Inr [bareNode]), [Request catalogUrl])
   \<and> tagsOf bareNode = [''code'' \<mapsto> ''001'', ''abridge'' \<mapsto> [], ''name'' \<mapsto> ''Alpha'',
                         ''type'' \<mapsto> ''T1'', ''pinyin'' \<mapsto> []]
   \<and> sink storeEnv bareNode (envelope [sampleRecord]) [] =
       (None,
        [Write \<lparr>bpDatabase = ''fund'',
                bpPoints =
                  [\<lparr>ptName = ''fund'',
                    ptTags = [''code'' \<mapsto> ''001'', ''name'' \<mapsto> ''Alpha'', ''type'' \<mapsto> ''T1''],
                    ptFields = map_of (fieldsOf storeEnv sampleRecord),
                    ptTime = 1704153600\<rparr>]\<rparr>,
         LogSinkSuccess ''001'' ''Alpha'' 1])
   \<and> card (dom [''code'' \<mapsto> ''001'', ''name'' \<mapsto> ''Alpha'', ''type'' \<mapsto> ''T1'']) = 3\<close>
proof -
  have c: "getNodeList (catalogEnv payloadBare) [] =
      (Return (Inr [bareNode]), [Request catalogUrl])"
    by (simp add: getNodeList_fetched [OF catalogEnv_fetch] okResponse_def payloadBare_trim
        payloadBare_tuples payloadBare_nodes payloadBare_fields)
  have t: "tagsOf bareNode = [''code'' \<mapsto> ''001'', ''abridge'' \<mapsto> [], ''name'' \<mapsto> ''Alpha'',
                         ''type'' \<mapsto> ''T1'', ''pinyin'' \<mapsto> []]"
    by (simp add: tagsOf_def bareNode_def)
  have k: "keptTags (tagsOf bareNode) =
      [''code'' \<mapsto> ''001'', ''name'' \<mapsto> ''Alpha'', ''type'' \<mapsto> ''T1'']"
  proof
    fix k
    show "keptTags (tagsOf bareNode) k =
        [''code'' \<mapsto> ''001'', ''name'' \<mapsto> ''Alpha'', ''type'' \<mapsto> ''T1''] k"
      by (simp add: keptTags_def tagsOf_def bareNode_def)
  qed
  have s: "sink storeEnv bareNode (envelope [sampleRecord]) [] =
       (None,
        [Write \<lparr>bpDatabase = ''fund'',
                bpPoints =
                  [\<lparr>ptName = ''fund'',
                    ptTags = [''code'' \<mapsto> ''001'', ''name'' \<mapsto> ''Alpha'', ''type'' \<mapsto> ''T1''],
                    ptFields = map_of (fieldsOf storeEnv sampleRecord),
                    ptTime = 1704153600\<rparr>]\<rparr>,
         LogSinkSuccess ''001'' ''Alpha'' 1])"
    by (simp add: sink_def envelope_def storeEnv_simps sample_dates NewPoint_accepted
        sample_accepted k) (simp add: bareNode_def)
  have "card (dom [''code'' \<mapsto> ''001'', ''name'' \<mapsto> ''Alpha'', ''type'' \<mapsto> ''T1'']) = 3"
    by simp
  with c t s show ?thesis by simp
qed

lemma sink_trace:
  "\<exists>evs. snd (sink env node info tr) = tr @ evs \<and> sleeps evs = 0"
  by (simp add: sink_def Let_def split: option.splits sum.splits)

lemma sink_history:
  "sink (scriptedEnv replies unm) node historyInfo tr =
     (None, tr @ [Write \<lparr>bpDatabase = ''fund'',
                         bpPoints = [pointOf (scriptedEnv replies unm) (tagsOf node) historyRecord]\<rparr>,
                  LogSinkSuccess (Code node) (Name node) 1])"
proof -
  have "parseLocal (scriptedEnv replies unm) (FSRQ historyRecord) = Inr 1704153600"
    by (simp add: scripted_simps historyRecord_def demoDates_def)
  moreover have "pointAccepted (scriptedEnv replies unm) tags historyRecord t" for tags t
    by (simp add: scripted_accepted historyRecord_def)
  ultimately show ?thesis
    by (simp add: sink_def historyInfo_def NewPoint_accepted pointOf_def scripted_simps)
qed

section \<open>Properties of the pipeline driver\<close>

text \<open>\<open>getFund\<close> for an instrument that has a code, in terms of the URL it requests.\<close>

lemma getFund_unfold:
  "Code node \<noteq> [] \<Longrightarrow> getFund env node tr =
    (case getHttpResponse env (fundUrlOf env node tr) tr of
              ((_, Some err), tr1) \<Rightarrow> (Return (Some err), tr1)
            | ((None, None), tr1) \<Rightarrow> (Panic NilDereference, tr1)
            | ((Some resp, None), tr1) \<Rightarrow>
                (let tr2 = tr1 @ [LogGetSuccess (Code node) (Name node)] in
                 case parseFund env resp of
                   Panic p \<Rightarrow> (Panic p, tr2)
                 | Return (Inl err) \<Rightarrow> (Return (Some err), tr2)
                 | Return (Inr fundInfo) \<Rightarrow>
                     if ErrCode fundInfo \<noteq> 0
                     then (Return (Some (FundInfoError (ErrCode fundInfo) (ErrMsg fundInfo)
                                            (PageIndex fundInfo) (PageSize fundInfo))), tr2)
                     else (case sink env node fundInfo tr2 of
                             (Some err, tr3) \<Rightarrow> (Return (Some err), tr3)
                           | (None, tr3) \<Rightarrow> (Return None, tr3))))"
  by (simp add: getFund_def fundUrlOf_def Let_def)

lemma getFund_trace:
  "\<exists>r evs. getFund env node tr = (Return r, tr @ evs) \<and> sleeps evs = 0"
proof (cases "Code node = []")
  case True
  then show ?thesis by (simp add: getFund_def)
next
  case False
  let ?u = "fundUrlOf env node tr"
  obtain resp err tr1 where f: "getHttpResponse env ?u tr = ((resp, err), tr1)"
    by (metis surj_pair)
  from getHttpResponse_trace [of env ?u tr] f obtain fundUrl k
    where tr1: "tr1 = tr @ sent fundUrl k" by auto
  from getHttpResponse_not_nil [of env ?u tr] f have nn: "(resp, err) \<noteq> (None, None)" by simp
  have g: "getFund env node tr =
      (case ((resp, err), tr1) of
              ((_, Some err), tr1) \<Rightarrow> (Return (Some err), tr1)
            | ((None, None), tr1) \<Rightarrow> (Panic NilDereference, tr1)
            | ((Some resp, None), tr1) \<Rightarrow>
                (let tr2 = tr1 @ [LogGetSuccess (Code node) (Name node)] in
                 case parseFund env resp of
                   Panic p \<Rightarrow> (Panic p, tr2)
                 | Return (Inl err) \<Rightarrow> (Return (Some err), tr2)
                 | Return (Inr fundInfo) \<Rightarrow>
                     if ErrCode fundInfo \<noteq> 0
                     then (Return (Some (FundInfoError (ErrCode fundInfo) (ErrMsg fundInfo)
                                            (PageIndex fundInfo) (PageSize fundInfo))), tr2)
                     else (case sink env node fundInfo tr2 of
                             (Some err, tr3) \<Rightarrow> (Return (Some err), tr3)
                           | (None, tr3) \<Rightarrow> (Return None, tr3))))"
    using False f by (simp add: getFund_def fundUrlOf_def Let_def)
  show ?thesis
  proof (cases err)
    case (Some e)
    with g tr1 show ?thesis by (cases resp) (simp_all add: sleeps_sent)
  next
    case None
    with nn obtain r where r: "resp = Some r" by auto
    let ?tr2 = "tr1 @ [LogGetSuccess (Code node) (Name node)]"
    obtain res where p: "parseFund env r = Return res" by (simp add: parseFund_eq)
    show ?thesis
    proof (cases res)
      case (Inl e)
      with g None r p tr1 show ?thesis by (simp add: sleeps_sent sleeps_append)
    next
      case (Inr fundInfo)
      show ?thesis
      proof (cases "ErrCode fundInfo = 0")
        case False
        with g None r p tr1 Inr show ?thesis by (simp add: sleeps_sent sleeps_append)
      next
        case True
        from sink_trace [of env node fundInfo ?tr2] obtain evs where
          "snd (sink env node fundInfo ?tr2) = ?tr2 @ evs" and "sleeps evs = 0"
          by blast
        with g None r p tr1 Inr True show ?thesis
          by (cases "sink env node fundInfo ?tr2"; cases "fst (sink env node fundInfo ?tr2)")
            (simp_all add: sleeps_sent sleeps_append)
      qed
    qed
  qed
qed

text \<open>
  Claim C6. When the instrument has a code, the history was fetched and parsed, and the
  envelope's error code is not zero, \<open>getFund\<close> returns the error that carries the API's
  code, message, page index and page size. It hands no batch to the store, and its
  requests are those of the one call of the fetcher, at most three: nothing is asked
  again after the envelope is seen.
\<close>

theorem getFund_domain_error:
  assumes "Code node \<noteq> []"
    and "getHttpResponse env (fundUrlOf env node tr) tr = ((Some resp, None), tr1)"
    and "parseFund env resp = Return (Inr info)"
    and "ErrCode info \<noteq> 0"
  shows "getFund env node tr =
       (Return (Some (FundInfoError (ErrCode info) (ErrMsg info) (PageIndex info) (PageSize info))),
        tr1 @ [LogGetSuccess (Code node) (Name node)])
    \<and> writes (snd (getFund env node tr)) = writes tr
    \<and> (\<exists>fundUrl k. k \<le> 3
          \<and> snd (getFund env node tr) = tr @ sent fundUrl k @ [LogGetSuccess (Code node) (Name node)])"
proof -
  have g: "getFund env node tr =
       (Return (Some (FundInfoError (ErrCode info) (ErrMsg info) (PageIndex info) (PageSize info))),
        tr1 @ [LogGetSuccess (Code node) (Name node)])"
    using assms by (simp add: getFund_def fundUrlOf_def Let_def)
  from getHttpResponse_trace [of env "fundUrlOf env node tr" tr] assms(2)
  obtain fundUrl k where k: "k \<le> 3" and tr1: "tr1 = tr @ sent fundUrl k"
    by auto
  have "writes (snd (getFund env node tr)) = writes tr"
    by (simp add: g tr1 writes_append writes_sent)
  moreover have "snd (getFund env node tr) = tr @ sent fundUrl k @ [LogGetSuccess (Code node) (Name node)]"
    by (simp add: g tr1)
  ultimately show ?thesis using g k by blast
qed

text \<open>
  Claim C6 at an endpoint that answers with the envelope
  \<open>{"ErrCode":-1,"ErrMsg":"bad","PageSize":20,"PageIndex":1}\<close>.
\<close>

theorem getFund_domain_error_witness:
  "Code sampleNode \<noteq> []
   \<and> getHttpResponse errorEnv (fundUrlOf errorEnv sampleNode []) [] =
       ((Some (okResponse errorBody), None), [Request (fundUrlOf errorEnv sampleNode [])])
   \<and> parseFund errorEnv (okResponse errorBody) = Return (Inr errorInfo)
   \<and> ErrCode errorInfo = - 1
   \<and> getFund errorEnv sampleNode [] =
       (Return (Some (FundInfoError (- 1) ''bad'' 1 20)),
        [Request (fundUrlOf errorEnv sampleNode []), LogGetSuccess ''001'' ''Alpha''])
   \<and> writes (snd (getFund errorEnv sampleNode [])) = []"
proof -
  have h1: "Code sampleNode \<noteq> []" by (simp add: sampleNode_def)
  have h2: "getHttpResponse errorEnv (fundUrlOf errorEnv sampleNode []) [] =
       ((Some (okResponse errorBody), None), [] @ [Request (fundUrlOf errorEnv sampleNode [])])"
    unfolding errorEnv_def by (rule scripted_fetch) (simp add: always_def)
  have h3: "parseFund errorEnv (okResponse errorBody) = Return (Inr errorInfo)"
    unfolding errorEnv_def by (rule parseFund_errorBody)
  have h4: "ErrCode errorInfo \<noteq> 0" by (simp add: errorInfo_def)
  from getFund_domain_error [OF h1 h2 h3 h4] h1 h2 h3 show ?thesis
    by (simp add: errorInfo_def sampleNode_def)
qed

lemma runLoop_returns:
  "\<exists>tr'. runLoop env nodes tr = (Return None, tr') \<and> sleeps tr' = sleeps tr + length nodes"
proof (induction nodes arbitrary: tr)
  case Nil
  then show ?case by simp
next
  case (Cons node rest)
  from getFund_trace [of env node tr] obtain r evs where
    g: "getFund env node tr = (Return r, tr @ evs)" and s: "sleeps evs = 0"
    by blast
  show ?case
  proof (cases r)
    case None
    from Cons [of "(tr @ evs) @ [Sleep]"] obtain tr' where
      "runLoop env rest ((tr @ evs) @ [Sleep]) = (Return None, tr')"
      and "sleeps tr' = sleeps ((tr @ evs) @ [Sleep]) + length rest"
      by blast
    with g s None show ?thesis by (simp add: sleeps_append)
  next
    case (Some err)
    let ?tr = "(tr @ evs) @ [LogGetFundError (Code node) (Name node) err, Sleep]"
    from Cons [of ?tr] obtain tr' where
      "runLoop env rest ?tr = (Return None, tr')"
      and "sleeps tr' = sleeps ?tr + length rest"
      by blast
    with g s Some show ?thesis by (simp add: sleeps_append)
  qed
qed

lemma runLoop_append:
  "runLoop env (before @ rest) tr = runLoop env rest (snd (runLoop env before tr))"
proof (induction before arbitrary: tr)
  case Nil
  then show ?case by simp
next
  case (Cons node before)
  from getFund_trace [of env node tr] obtain r evs where
    g: "getFund env node tr = (Return r, tr @ evs)"
    by blast
  then show ?case using Cons by (cases r) simp_all
qed

text \<open>
  Claim C9. When the catalog discovery returns a list of instruments, \<open>run\<close> returns
  without error and pauses once per instrument. Every instrument of the list is
  processed in its turn, in the state left by those before it, whatever these returned:
  if \<open>getFund\<close> fails for it, the error is logged with the instrument's code and name,
  and after the pause the loop goes on with the rest of the list.
\<close>

theorem run_continues_after_failure:
  assumes "getNodeList env tr = (Return (Inr nodes), tr1)"
  shows "(\<exists>tr2. run env tr = (Return None, tr2) \<and> sleeps tr2 = sleeps tr1 + length nodes)
    \<and> (\<forall>before node rest. nodes = before @ node # rest \<longrightarrow>
          (\<exists>trb r trn.
              runLoop env before tr1 = (Return None, trb)
            \<and> getFund env node trb = (Return r, trn)
            \<and> run env tr =
                runLoop env rest
                  (trn @ (case r of
                            Some err \<Rightarrow> [LogGetFundError (Code node) (Name node) err]
                          | None \<Rightarrow> []) @ [Sleep])))"
proof -
  have r: "run env tr = runLoop env nodes tr1"
    using assms by (simp add: run_def)
  have "\<exists>tr2. run env tr = (Return None, tr2) \<and> sleeps tr2 = sleeps tr1 + length nodes"
    unfolding r by (rule runLoop_returns)
  moreover have "\<exists>trb r trn.
              runLoop env before tr1 = (Return None, trb)
            \<and> getFund env node trb = (Return r, trn)
            \<and> run env tr =
                runLoop env rest
                  (trn @ (case r of
                            Some err \<Rightarrow> [LogGetFundError (Code node) (Name node) err]
                          | None \<Rightarrow> []) @ [Sleep])"
    if n: "nodes = before @ node # rest" for before node rest
  proof -
    from runLoop_returns [of env before tr1] obtain trb where
      b: "runLoop env before tr1 = (Return None, trb)" by blast
    from getFund_trace [of env node trb] obtain res evs where
      g: "getFund env node trb = (Return res, trb @ evs)" by blast
    have "run env tr = runLoop env (node # rest) trb"
      using runLoop_append [of env before "node # rest" tr1] by (simp add: r n b)
    also have "\<dots> = runLoop env rest
                  ((trb @ evs) @ (case res of
                            Some err \<Rightarrow> [LogGetFundError (Code node) (Name node) err]
                          | None \<Rightarrow> []) @ [Sleep])"
      using g by (cases res) simp_all
    finally show ?thesis using b g by blast
  qed
  ultimately show ?thesis by blast
qed

lemma cycle_catalog:
  \<open>getNodeList cycleEnv [] =
     (Return (Inr [\<lparr>Code = ''001'', Abridge = ''A'', Name = ''Alpha'', Type = ''T1'', Pinyin = ''a''\<rparr>,
                   zeroNode,
                   \<lparr>Code = ''003'', Abridge = ''C'', Name = ''Gamma'', Type = ''T3'', Pinyin = ''c''\<rparr>]),
      [Request catalogUrl, LogInvalidNode ''["002","B","Beta","T2"''])\<close>
proof -
  have "getHttpResponse cycleEnv catalogUrl [] =
      ((Some (okResponse payload3), None), [] @ [Request catalogUrl])"
    unfolding cycleEnv_def by (rule scripted_fetch) (simp add: cycleReplies_def)
  from getNodeList_fetched [OF this] show ?thesis
    by (simp add: okResponse_def payload3_trim payload3_tuples payload3_fields payload2_fields
        payload3_nodes payload2_nodes)
qed

text \<open>
  The sample cycle: the request made after two events is answered with the history, every
  later one with the refusal of the API.
\<close>

lemma getFund_cycle_history:
  assumes "Code node \<noteq> []" and "length tr = 2"
  shows "getFund cycleEnv node tr =
     (Return None,
      tr @ [Request (fundUrlOf cycleEnv node tr), LogGetSuccess (Code node) (Name node),
            Write \<lparr>bpDatabase = ''fund'',
                   bpPoints = [pointOf cycleEnv (tagsOf node) historyRecord]\<rparr>,
            LogSinkSuccess (Code node) (Name node) 1])"
proof -
  have f: "getHttpResponse cycleEnv (fundUrlOf cycleEnv node tr) tr =
       ((Some (okResponse historyBody), None), tr @ [Request (fundUrlOf cycleEnv node tr)])"
    unfolding cycleEnv_def by (rule scripted_fetch) (simp add: cycleReplies_def assms)
  have p: "parseFund cycleEnv (okResponse historyBody) = Return (Inr historyInfo)"
    unfolding cycleEnv_def by (rule parseFund_historyBody)
  have s: "sink cycleEnv node historyInfo tr' =
     (None, tr' @ [Write \<lparr>bpDatabase = ''fund'',
                         bpPoints = [pointOf cycleEnv (tagsOf node) historyRecord]\<rparr>,
                  LogSinkSuccess (Code node) (Name node) 1])" for tr'
    unfolding cycleEnv_def by (rule sink_history)
  have i: "ErrCode historyInfo = 0" by (simp add: historyInfo_def)
  show ?thesis by (simp add: getFund_unfold [OF assms(1)] f p s i)
qed

lemma getFund_cycle_error:
  assumes "Code node \<noteq> []" and "tr \<noteq> []" and "length tr \<noteq> 2"
  shows "getFund cycleEnv node tr =
     (Return (Some (FundInfoError (- 1) ''bad'' 1 20)),
      tr @ [Request (fundUrlOf cycleEnv node tr), LogGetSuccess (Code node) (Name node)])"
proof -
  have f: "getHttpResponse cycleEnv (fundUrlOf cycleEnv node tr) tr =
       ((Some (okResponse errorBody), None), tr @ [Request (fundUrlOf cycleEnv node tr)])"
    unfolding cycleEnv_def by (rule scripted_fetch) (simp add: cycleReplies_def assms)
  have p: "parseFund cycleEnv (okResponse errorBody) = Return (Inr errorInfo)"
    unfolding cycleEnv_def by (rule parseFund_errorBody)
  show ?thesis by (simp add: getFund_unfold [OF assms(1)] f p errorInfo_def)
qed

lemma cycle_run:
  \<open>writes (snd (run cycleEnv [])) =
     [\<lparr>bpDatabase = ''fund'',
       bpPoints = [pointOf cycleEnv
          (tagsOf \<lparr>Code = ''001'', Abridge = ''A'', Name = ''Alpha'', Type = ''T1'', Pinyin = ''a''\<rparr>)
          historyRecord]\<rparr>]
   \<and> loggedErrors (snd (run cycleEnv [])) =
     [([], [], EmptyFundCode), (''003'', ''Gamma'', FundInfoError (- 1) ''bad'' 1 20)]\<close>
proof -
  let ?n1 = "\<lparr>Code = ''001'', Abridge = ''A'', Name = ''Alpha'', Type = ''T1'', Pinyin = ''a''\<rparr>"
  let ?n3 = "\<lparr>Code = ''003'', Abridge = ''C'', Name = ''Gamma'', Type = ''T3'', Pinyin = ''c''\<rparr>"
  have z: "getFund cycleEnv zeroNode tr = (Return (Some EmptyFundCode), tr)" for tr
    by (simp add: getFund_def zeroNode_def)
  have c: "Code ?n1 \<noteq> []" "Code ?n3 \<noteq> []" by simp_all
  have e: "Code zeroNode = []" "Name zeroNode = []" by (simp_all add: zeroNode_def)
  show ?thesis
    by (simp add: run_def cycle_catalog getFund_cycle_history [OF c(1)] z
        getFund_cycle_error [OF c(2)] e)
qed

text \<open>
  Claim C9 in a cycle over three instruments, the second of which is the zero-valued
  record of a malformed tuple, for which \<open>getFund\<close> fails, and the third of which the
  API refuses: both errors are logged, the first instrument's batch is written, and the
  cycle ends without error after three pauses.
\<close>

theorem run_continues_after_failure_witness:
  \<open>getNodeList cycleEnv [] =
     (Return (Inr [\<lparr>Code = ''001'', Abridge = ''A'', Name = ''Alpha'', Type = ''T1'', Pinyin = ''a''\<rparr>,
                   zeroNode,
                   \<lparr>Code = ''003'', Abridge = ''C'', Name = ''Gamma'', Type = ''T3'', Pinyin = ''c''\<rparr>]),
      [Request catalogUrl, LogInvalidNode ''["002","B","Beta","T2"''])
   \<and> fst (getFund cycleEnv zeroNode []) = Return (Some EmptyFundCode)
   \<and> fst (run cycleEnv []) = Return None
   \<and> sleeps (snd (run cycleEnv [])) = 3
   \<and> loggedErrors (snd (run cycleEnv [])) =
       [([], [], EmptyFundCode), (''003'', ''Gamma'', FundInfoError (- 1) ''bad'' 1 20)]
   \<and> length (writes (snd (run cycleEnv []))) = 1\<close>
proof -
  from run_continues_after_failure [OF cycle_catalog] obtain tr2 where
    "run cycleEnv [] = (Return None, tr2)" and "sleeps tr2 = 3"
    by auto
  moreover have "fst (getFund cycleEnv zeroNode []) = Return (Some EmptyFundCode)"
    by (simp add: getFund_def zeroNode_def)
  ultimately show ?thesis using cycle_catalog cycle_run by simp
qed

end
